theory Spec2Isabelle
  imports Complex_Main
begin

section \<open>The synchronized multi-track player (AudioPlayer.tsx)\<close>

text \<open>
  The component \<open>AudioSyncPlayer\<close> keeps React state (\<open>useState\<close>), mutable references
  (\<open>useRef\<close>) and drives Web Audio nodes. The embedding keeps all three in one record:
  the React state and references under the names of the source, and the objects the
  references point to (audio nodes, timers) in explicit stores, so that two references
  to one node alias as they do in JavaScript. A node reference is the node's index in
  its store; creating a node appends it to the store.
\<close>

subsection \<open>Values of the platform\<close>

type_synonym url = string

text \<open>A decoded \<open>AudioBuffer\<close>: the three properties the component reads.\<close>

record audio_buffer =
  buf_duration :: real
  numberOfChannels :: nat
  sampleRate :: nat

text \<open>The entries of the \<open>metadata\<close> state (lines 68--72).\<close>

record track_meta =
  meta_duration :: real
  meta_numberOfChannels :: nat
  meta_sampleRate :: nat

text \<open>
  Exceptions. \<open>InvalidStateError\<close> is what an \<open>AudioBufferSourceNode\<close> throws when
  \<open>start\<close> is called a second time or \<open>stop\<close> is called before \<open>start\<close>;
  \<open>TypeError\<close> is a property read on \<open>null\<close> or \<open>undefined\<close>; \<open>LoadError\<close> is a rejected
  \<open>fetch\<close> or \<open>decodeAudioData\<close> for the given url.
\<close>

datatype js_error = InvalidStateError | TypeError | LoadError url

text \<open>
  Numbers are doubles in the source. The component stores and compares them
  (\<open>Math.max\<close>, the bounds of the sliders) and never computes with them, so they are
  reals here. \<open>Math.max()\<close> of no arguments is \<open>-Infinity\<close>; every other number is finite.
\<close>

datatype js_number = NegInfinity | Num real

text \<open>
  An \<open>AudioBufferSourceNode\<close> is single-use: \<open>Started offset\<close> after \<open>start(0, offset)\<close>,
  \<open>Stopped\<close> after \<open>stop()\<close>.
\<close>

datatype node_status = Unstarted | Started real | Stopped

record source_node =
  buffer :: audio_buffer
  node_loop :: bool
  node_output :: "nat option"
  status :: node_status

record gain_node =
  gain_value :: real
  gain_output :: "nat option"

record compression_params =
  threshold :: real
  knee :: real
  ratio :: real
  attack :: real
  release :: real

record compressor_node =
  programmed :: compression_params
  comp_output :: "nat option"

record analyser_node =
  fftSize :: nat
  to_destination :: bool

datatype audio_context = AudioContext

datatype param_name = Threshold | Knee | Ratio | Attack | Release

subsection \<open>The component state\<close>

text \<open>
  A load in flight: \<open>initAudio\<close> has been called by the effect and waits for
  \<open>setupAudio\<close>. What runs when the wait ends is a closure of the render that ran the
  effect: it holds that render's \<open>audioContext\<close> and \<open>loop\<close>, and that render's
  \<open>updateCompressorParams\<close>, which reads that render's \<open>compressionParams\<close>.
\<close>

record load =
  load_context :: audio_context
  load_loop :: bool
  load_params :: compression_params

record player =
  \<comment> \<open>\<open>useState\<close>, lines 6--22\<close>
  audioContext :: "audio_context option"
  sources :: "nat list"
  gainNodes :: "nat list"
  isPlaying :: bool
  loop :: bool
  currentTime :: real
  duration :: js_number
  metadata :: "track_meta list"
  isLoading :: bool
  mutedTracks :: "bool list"
  compressionParams :: compression_params
  \<comment> \<open>\<open>useRef\<close>, lines 24--29 (the canvas is the display surface and is left out)\<close>
  intervalRef :: "nat option"
  analyserRef :: "nat option"
  dataArrayRef :: "nat option"
  animationFrameRef :: "nat option"
  compressorRef :: "nat option"
  \<comment> \<open>the objects behind the references\<close>
  source_nodes :: "source_node list"
  gain_nodes :: "gain_node list"
  compressor_nodes :: "compressor_node list"
  analyser_nodes :: "analyser_node list"
  \<comment> \<open>the browser's scheduler: active \<open>setInterval\<close> timers, pending animation frames\<close>
  intervals :: "nat list"
  frameRequests :: "nat list"
  nextHandle :: nat
  \<comment> \<open>the loads in flight, oldest first\<close>
  pending :: "load list"
  \<comment> \<open>what \<open>console.error\<close> and uncaught handler exceptions report\<close>
  console :: "js_error list"

definition default_params :: compression_params where
  "default_params =
     \<lparr>threshold = - 24, knee = 30, ratio = 12, attack = 3 / 1000, release = 25 / 100\<rparr>"

definition initial :: player where
  "initial =
     \<lparr>audioContext = None, sources = [], gainNodes = [], isPlaying = False, loop = False,
      currentTime = 0, duration = Num 0, metadata = [], isLoading = False, mutedTracks = [],
      compressionParams = default_params,
      intervalRef = None, analyserRef = None, dataArrayRef = None, animationFrameRef = None,
      compressorRef = None,
      source_nodes = [], gain_nodes = [], compressor_nodes = [], analyser_nodes = [],
      intervals = [], frameRequests = [], nextHandle = 0, pending = [], console = []\<rparr>"

subsection \<open>Playback nodes\<close>

text \<open>
  \<open>source.start(0, offset)\<close> and \<open>source.stop()\<close>. Each returns the exception it throws,
  if any, and the node as it is afterwards.
\<close>

definition node_start :: "real \<Rightarrow> source_node \<Rightarrow> js_error option \<times> source_node" where
  "node_start offset n =
     (case status n of
        Unstarted \<Rightarrow> (None, n\<lparr>status := Started offset\<rparr>)
      | Started _ \<Rightarrow> (Some InvalidStateError, n)
      | Stopped \<Rightarrow> (Some InvalidStateError, n))"

definition node_stop :: "source_node \<Rightarrow> js_error option \<times> source_node" where
  "node_stop n =
     (case status n of
        Unstarted \<Rightarrow> (Some InvalidStateError, n)
      | Started _ \<Rightarrow> (None, n\<lparr>status := Stopped\<rparr>)
      | Stopped \<Rightarrow> (None, n))"

text \<open>The callback of line 147--148: \<open>source.stop(); source.start(0, time)\<close>.\<close>

definition stop_then_start :: "real \<Rightarrow> source_node \<Rightarrow> js_error option \<times> source_node" where
  "stop_then_start time n =
     (case node_stop n of
        (Some e, n') \<Rightarrow> (Some e, n')
      | (None, n') \<Rightarrow> node_start time n')"

text \<open>
  \<open>sources.forEach(f)\<close> over node references: \<open>f\<close> mutates the node in the store; the
  first exception ends the loop, and what was mutated before stays mutated.
\<close>

fun forEach :: "(source_node \<Rightarrow> js_error option \<times> source_node) \<Rightarrow> nat list \<Rightarrow>
    source_node list \<Rightarrow> js_error option \<times> source_node list" where
  "forEach f [] h = (None, h)"
| "forEach f (i # rest) h =
     (if i < length h then
        (case f (h ! i) of
           (Some e, n) \<Rightarrow> (Some e, h[i := n])
         | (None, n) \<Rightarrow> forEach f rest (h[i := n]))
      else (Some TypeError, h))"

subsection \<open>Loading and building the graph (the effect, lines 31--86)\<close>

text \<open>
  One awaited \<open>loadAudio\<close>: when it settles and how (rejected with an error, or
  fulfilled with a value).
\<close>

type_synonym 'a settled = "nat \<times> (js_error + 'a)"

text \<open>
  \<open>Promise.all\<close> over the per-url loads. If none is rejected it is fulfilled with the
  values in the order of the urls. Otherwise it is rejected with the error of the load
  that is rejected first in time (of two rejected at the same time, the one earlier in
  the list).
\<close>

fun first_rejection :: "'a settled list \<Rightarrow> (nat \<times> js_error) option" where
  "first_rejection [] = None"
| "first_rejection ((t, Inr x) # rs) = first_rejection rs"
| "first_rejection ((t, Inl e) # rs) =
     (case first_rejection rs of
        None \<Rightarrow> Some (t, e)
      | Some (t', e') \<Rightarrow> if t' < t then Some (t', e') else Some (t, e))"

fun fulfilled :: "'a settled list \<Rightarrow> 'a list" where
  "fulfilled [] = []"
| "fulfilled ((t, Inr x) # rs) = x # fulfilled rs"
| "fulfilled ((t, Inl e) # rs) = fulfilled rs"

definition promise_all :: "'a settled list \<Rightarrow> js_error + 'a list" where
  "promise_all rs =
     (case first_rejection rs of
        Some (t, e) \<Rightarrow> Inl e
      | None \<Rightarrow> Inr (fulfilled rs))"

text \<open>\<open>Math.max(...xs)\<close>.\<close>

fun js_max :: "js_number \<Rightarrow> js_number \<Rightarrow> js_number" where
  "js_max NegInfinity y = y"
| "js_max x NegInfinity = x"
| "js_max (Num a) (Num b) = Num (max a b)"

definition Math_max :: "real list \<Rightarrow> js_number" where
  "Math_max xs = foldl js_max NegInfinity (map Num xs)"

text \<open>
  \<open>updateCompressorParams\<close> (lines 163--169) is created anew by every render and reads
  that render's \<open>compressionParams\<close> and \<open>audioContext\<close>: they are its first two
  arguments here. It programs the five parameters of the compressor at
  \<open>audioContext.currentTime\<close>, which is a \<open>TypeError\<close> when there is no context.
\<close>

definition updateCompressorParams :: "audio_context option \<Rightarrow> compression_params \<Rightarrow> nat \<Rightarrow>
    player \<Rightarrow> js_error option \<times> player" where
  "updateCompressorParams context params compressor s =
     (case context of
        None \<Rightarrow> (Some TypeError, s)
      | Some _ \<Rightarrow>
          if compressor < length (compressor_nodes s) then
            (None, s\<lparr>compressor_nodes := (compressor_nodes s)
                [compressor := (compressor_nodes s ! compressor)\<lparr>programmed := params\<rparr>]\<rparr>)
          else (Some TypeError, s))"

definition meta_of :: "audio_buffer \<Rightarrow> track_meta" where
  "meta_of b = \<lparr>meta_duration = buf_duration b, meta_numberOfChannels = numberOfChannels b,
     meta_sampleRate = sampleRate b\<rparr>"

text \<open>
  \<open>setupAudio\<close> after its \<open>await\<close> (lines 41--75), given the closure it runs in and the
  decoded buffers. New gain nodes have the platform's default gain 1, a new compressor
  the platform's defaults.
\<close>

definition setupAudio_decoded :: "load \<Rightarrow> audio_buffer list \<Rightarrow> player \<Rightarrow> js_error option \<times> player" where
  "setupAudio_decoded l audioBuffers s =
     (let n = length audioBuffers;
          g0 = length (gain_nodes s);
          new_gainNodes = [g0 ..< g0 + n];
          src0 = length (source_nodes s);
          new_sources = [src0 ..< src0 + n];
          analyser = length (analyser_nodes s);
          bufferLength = 256 div 2;
          compressor = length (compressor_nodes s);
          s1 = s\<lparr>gain_nodes := gain_nodes s @ replicate n \<lparr>gain_value = 1, gain_output = None\<rparr>,
                 source_nodes := source_nodes s @
                   map (\<lambda>(b, index). \<lparr>buffer = b, node_loop = load_loop l,
                          node_output = Some (new_gainNodes ! index), status = Unstarted\<rparr>)
                       (zip audioBuffers [0 ..< n]),
                 analyser_nodes := analyser_nodes s @ [\<lparr>fftSize = 256, to_destination = False\<rparr>],
                 compressor_nodes := compressor_nodes s @
                   [\<lparr>programmed = default_params, comp_output = None\<rparr>]\<rparr>
      in case updateCompressorParams (Some (load_context l)) (load_params l) compressor s1 of
           (Some e, s2) \<Rightarrow> (Some e, s2)
         | (None, s2) \<Rightarrow>
             (None,
              s2\<lparr>gain_nodes := take g0 (gain_nodes s2) @
                   map (\<lambda>g. g\<lparr>gain_output := Some compressor\<rparr>) (drop g0 (gain_nodes s2)),
                 compressor_nodes := (compressor_nodes s2)
                   [compressor := (compressor_nodes s2 ! compressor)\<lparr>comp_output := Some analyser\<rparr>],
                 analyser_nodes := (analyser_nodes s2)
                   [analyser := (analyser_nodes s2 ! analyser)\<lparr>to_destination := True\<rparr>],
                 gainNodes := new_gainNodes,
                 sources := new_sources,
                 analyserRef := Some analyser,
                 dataArrayRef := Some bufferLength,
                 compressorRef := Some compressor,
                 duration := Math_max (map buf_duration audioBuffers),
                 metadata := map meta_of audioBuffers,
                 mutedTracks := replicate n False\<rparr>))"

text \<open>
  \<open>setupAudio\<close> once its wait has ended: \<open>fetch_decode\<close> stands for \<open>loadAudio\<close> (fetch,
  then decode), which belongs to the platform. A rejected load rejects \<open>setupAudio\<close>
  before it creates or stores anything.
\<close>

definition setupAudio :: "load \<Rightarrow> (url \<Rightarrow> audio_buffer settled) \<Rightarrow> url list \<Rightarrow> player \<Rightarrow>
    js_error option \<times> player" where
  "setupAudio l fetch_decode urls s =
     (case promise_all (map fetch_decode urls) of
        Inl e \<Rightarrow> (Some e, s)
      | Inr audioBuffers \<Rightarrow> setupAudio_decoded l audioBuffers s)"

text \<open>
  \<open>initAudio\<close> (lines 78--84) up to its \<open>await\<close>: \<open>setIsLoading(true)\<close>, and the load is
  in flight. Other commands can be handled before it settles.
\<close>

definition initAudio :: "audio_context \<Rightarrow> player \<Rightarrow> player" where
  "initAudio context s =
     s\<lparr>isLoading := True,
       pending := pending s @
         [\<lparr>load_context = context, load_loop = loop s, load_params = compressionParams s\<rparr>]\<rparr>"

text \<open>
  \<open>initAudio\<close> from its \<open>await\<close> on, when the load at position \<open>k\<close> settles: \<open>setupAudio\<close>
  runs to its end and then \<open>setIsLoading(false)\<close>; a rejection goes to
  \<open>console.error\<close> and leaves \<open>isLoading\<close> as it is. The effect has no cleanup, so a
  load that was started earlier can settle after one that was started later.
\<close>

definition initAudio_resumed :: "(url \<Rightarrow> audio_buffer settled) \<Rightarrow> url list \<Rightarrow> nat \<Rightarrow> player \<Rightarrow> player" where
  "initAudio_resumed fetch_decode urls k s =
     (if k < length (pending s) then
        (case setupAudio (pending s ! k) fetch_decode urls
                (s\<lparr>pending := take k (pending s) @ drop (Suc k) (pending s)\<rparr>) of
           (Some e, s') \<Rightarrow> s'\<lparr>console := console s' @ [e]\<rparr>
         | (None, s') \<Rightarrow> s'\<lparr>isLoading := False\<rparr>)
      else s)"

text \<open>
  The effect runs after a render in which \<open>audioContext\<close> or \<open>loop\<close> changed
  (\<open>audioUrls\<close> is a constant property), and does nothing without a context.
\<close>

definition useEffect :: "player \<Rightarrow> player \<Rightarrow> player" where
  "useEffect prev s =
     (if audioContext s \<noteq> audioContext prev \<or> loop s \<noteq> loop prev then
        (case audioContext s of None \<Rightarrow> s | Some context \<Rightarrow> initAudio context s)
      else s)"

subsection \<open>The handlers (lines 88--177)\<close>

text \<open>
  \<open>draw\<close> (lines 94--114) first requests the next animation frame and stores the
  request in \<open>animationFrameRef\<close>, then reads the analyser (a \<open>TypeError\<close> without one)
  and paints the canvas, which is the display surface and is left out.
\<close>

definition draw :: "player \<Rightarrow> js_error option \<times> player" where
  "draw s =
     (let h = nextHandle s;
          s1 = s\<lparr>animationFrameRef := Some h, frameRequests := frameRequests s @ [h],
                 nextHandle := h + 1\<rparr>
      in case analyserRef s1 of None \<Rightarrow> (Some TypeError, s1) | Some _ \<Rightarrow> (None, s1))"

definition drawFrequencyData :: "player \<Rightarrow> js_error option \<times> player" where
  "drawFrequencyData s = draw s"

definition handlePlay :: "player \<Rightarrow> js_error option \<times> player" where
  "handlePlay s =
     (case audioContext s of
        None \<Rightarrow> (None, s\<lparr>audioContext := Some AudioContext\<rparr>)
      | Some _ \<Rightarrow>
          if length (sources s) > 0 then
            (case forEach (node_start 0) (sources s) (source_nodes s) of
               (Some e, h) \<Rightarrow> (Some e, s\<lparr>source_nodes := h\<rparr>)
             | (None, h) \<Rightarrow>
                 (case drawFrequencyData (s\<lparr>source_nodes := h, isPlaying := True\<rparr>) of
                    (Some e, s1) \<Rightarrow> (Some e, s1)
                  | (None, s1) \<Rightarrow>
                      (None, s1\<lparr>intervalRef := Some (nextHandle s1),
                                 intervals := intervals s1 @ [nextHandle s1],
                                 nextHandle := nextHandle s1 + 1\<rparr>)))
          else (None, s))"

text \<open>\<open>clearInterval\<close> and \<open>cancelAnimationFrame\<close> of what a reference holds.\<close>

definition cancel :: "nat option \<Rightarrow> nat list \<Rightarrow> nat list" where
  "cancel r scheduled = (case r of None \<Rightarrow> scheduled | Some h \<Rightarrow> removeAll h scheduled)"

definition handleStop :: "player \<Rightarrow> js_error option \<times> player" where
  "handleStop s =
     (if length (sources s) > 0 then
        (case forEach node_stop (sources s) (source_nodes s) of
           (Some e, h) \<Rightarrow> (Some e, s\<lparr>source_nodes := h\<rparr>)
         | (None, h) \<Rightarrow>
             (None, s\<lparr>source_nodes := h, isPlaying := False,
                        intervals := cancel (intervalRef s) (intervals s),
                        frameRequests := cancel (animationFrameRef s) (frameRequests s),
                        currentTime := 0\<rparr>))
      else (None, s))"

text \<open>
  \<open>handleSliderChange\<close>: the slider's value is a numeric string, which \<open>start\<close>
  converts to a number; it is modelled as that number. \<open>setCurrentTime\<close> is queued before
  the loop and takes effect whether or not the loop throws.
\<close>

definition handleSliderChange :: "real \<Rightarrow> player \<Rightarrow> js_error option \<times> player" where
  "handleSliderChange time s =
     (case forEach (stop_then_start time) (sources s) (source_nodes s) of
        (e, h) \<Rightarrow> (e, s\<lparr>currentTime := time, source_nodes := h\<rparr>))"

definition handleLoopToggle :: "player \<Rightarrow> js_error option \<times> player" where
  "handleLoopToggle s = (None, s\<lparr>loop := \<not> loop s\<rparr>)"

text \<open>
  \<open>toggleMute\<close>: an index past the end of the copied array extends it; the holes read
  as \<open>undefined\<close>, which the component only tests for truth, so they are \<open>False\<close> here.
  \<open>gainNodes[index].gain\<close> is a \<open>TypeError\<close> when there is no such gain node.
\<close>

definition toggleMute :: "nat \<Rightarrow> player \<Rightarrow> js_error option \<times> player" where
  "toggleMute index s =
     (let m = mutedTracks s;
          newMutedTracks =
            (if index < length m then m[index := \<not> m ! index]
             else m @ replicate (index - length m) False @ [True]);
          s1 = s\<lparr>mutedTracks := newMutedTracks\<rparr>
      in if index < length (gainNodes s) \<and> gainNodes s ! index < length (gain_nodes s) then
           (None, s1\<lparr>gain_nodes := (gain_nodes s)
               [gainNodes s ! index := (gain_nodes s ! (gainNodes s ! index))
                  \<lparr>gain_value := (if newMutedTracks ! index then 0 else 1)\<rparr>]\<rparr>)
         else (Some TypeError, s1))"

text \<open>\<open>{ ...prevParams, [name]: parseFloat(value) }\<close>, for the five names the sliders carry.\<close>

fun set_param :: "param_name \<Rightarrow> real \<Rightarrow> compression_params \<Rightarrow> compression_params" where
  "set_param Threshold v p = p\<lparr>threshold := v\<rparr>"
| "set_param Knee v p = p\<lparr>knee := v\<rparr>"
| "set_param Ratio v p = p\<lparr>ratio := v\<rparr>"
| "set_param Attack v p = p\<lparr>attack := v\<rparr>"
| "set_param Release v p = p\<lparr>release := v\<rparr>"


text \<open>
  \<open>handleCompressorChange\<close>: the value is the number \<open>parseFloat\<close> returns. The state
  update is queued; \<open>updateCompressorParams\<close> then still reads the \<open>compressionParams\<close>
  of the current render, that is the parameters before this change.
\<close>

definition handleCompressorChange :: "param_name \<Rightarrow> real \<Rightarrow> player \<Rightarrow> js_error option \<times> player" where
  "handleCompressorChange name v s =
     (let s1 = s\<lparr>compressionParams := set_param name v (compressionParams s)\<rparr>
      in case compressorRef s of
           None \<Rightarrow> (None, s1)
         | Some compressor \<Rightarrow>
             (case updateCompressorParams (audioContext s) (compressionParams s) compressor s of
                (e, s2) \<Rightarrow> (e, s1\<lparr>compressor_nodes := compressor_nodes s2\<rparr>)))"

subsection \<open>Commands\<close>

text \<open>
  What can happen to the component: the six controls of the rendered markup (lines
  179--312), the two timers and the end of a load. \<open>IntervalFired now\<close> is a tick of
  the 100 ms interval of line 127, reading \<open>audioContext.currentTime = now\<close>;
  \<open>AnimationFrame\<close> runs the pending \<open>draw\<close> callbacks; \<open>LoadSettled k\<close> is the moment the
  load at position \<open>k\<close> of those in flight settles.
\<close>

datatype event =
    ClickPlay
  | ClickStop
  | SliderChange real
  | LoopToggle
  | ClickMute nat
  | CompressorChange param_name real
  | IntervalFired real
  | AnimationFrame
  | LoadSettled nat

definition report :: "js_error option \<Rightarrow> player \<Rightarrow> player" where
  "report e s = (case e of None \<Rightarrow> s | Some x \<Rightarrow> s\<lparr>console := console s @ [x]\<rparr>)"

fun run_draws :: "nat \<Rightarrow> player \<Rightarrow> player" where
  "run_draws 0 s = s"
| "run_draws (Suc k) s = (case draw s of (e, s') \<Rightarrow> run_draws k (report e s'))"

fun handler :: "event \<Rightarrow> player \<Rightarrow> js_error option \<times> player" where
  "handler ClickPlay s = handlePlay s"
| "handler ClickStop s = handleStop s"
| "handler (SliderChange time) s = handleSliderChange time s"
| "handler LoopToggle s = handleLoopToggle s"
| "handler (ClickMute index) s = toggleMute index s"
| "handler (CompressorChange name v) s = handleCompressorChange name v s"
| "handler (IntervalFired now) s = (None, s\<lparr>currentTime := now\<rparr>)"
| "handler AnimationFrame s =
     (None, run_draws (length (frameRequests s)) (s\<lparr>frameRequests := []\<rparr>))"
| "handler (LoadSettled k) s = (None, s)"

text \<open>
  One step. For a control or a timer: the handler, the report of what it threw, the
  render, and the effect if its dependencies changed. For the end of a load no handler
  runs: \<open>initAudio\<close> goes on from its \<open>await\<close>.
\<close>

definition dispatch :: "(url \<Rightarrow> audio_buffer settled) \<Rightarrow> url list \<Rightarrow> event \<Rightarrow> player \<Rightarrow> player" where
  "dispatch fetch_decode urls ev s =
     (case ev of
        LoadSettled k \<Rightarrow> initAudio_resumed fetch_decode urls k s
      | _ \<Rightarrow> (case handler ev s of (e, s') \<Rightarrow> useEffect s (report e s')))"

text \<open>
  The declared range of each compressor slider (its \<open>min\<close> and \<open>max\<close> attributes,
  lines 240--305).
\<close>

fun declared_range :: "param_name \<Rightarrow> real \<times> real" where
  "declared_range Threshold = (- 100, 0)"
| "declared_range Knee = (0, 40)"
| "declared_range Ratio = (1, 20)"
| "declared_range Attack = (0, 1)"
| "declared_range Release = (0, 1)"

definition in_range :: "param_name \<Rightarrow> real \<Rightarrow> bool" where
  "in_range name v = (fst (declared_range name) \<le> v \<and> v \<le> snd (declared_range name))"

fun js_le :: "js_number \<Rightarrow> js_number \<Rightarrow> bool" where
  "js_le NegInfinity y = True"
| "js_le (Num a) NegInfinity = False"
| "js_le (Num a) (Num b) = (a \<le> b)"

text \<open>
  Which commands the markup lets through: the \<open>disabled\<close> attributes of the buttons
  and of the position slider, the \<open>min\<close> and \<open>max\<close> of the sliders, one mute button
  per \<open>metadata\<close> entry; a timer fires only while it is scheduled, and a load settles
  only while it is in flight.
\<close>

fun enabled :: "event \<Rightarrow> player \<Rightarrow> bool" where
  "enabled ClickPlay s = (\<not> (isPlaying s \<or> isLoading s))"
| "enabled ClickStop s = isPlaying s"
| "enabled (SliderChange time) s = (isPlaying s \<and> 0 \<le> time \<and> js_le (Num time) (duration s))"
| "enabled LoopToggle s = True"
| "enabled (ClickMute index) s = (index < length (metadata s))"
| "enabled (CompressorChange name v) s = in_range name v"
| "enabled (IntervalFired now) s = (intervals s \<noteq> [])"
| "enabled AnimationFrame s = (frameRequests s \<noteq> [])"
| "enabled (LoadSettled k) s = (k < length (pending s))"

inductive reachable :: "url list \<Rightarrow> player \<Rightarrow> bool" for urls where
  reachable_initial: "reachable urls initial"
| reachable_dispatch:
    "reachable urls s \<Longrightarrow> enabled ev s \<Longrightarrow> reachable urls (dispatch fetch_decode urls ev s)"

subsection \<open>The state a successful load builds\<close>

text \<open>
  What \<open>setupAudio\<close> leaves behind once every buffer has been decoded: the new nodes at
  the end of the stores, wired gain \<open>\<rightarrow>\<close> compressor \<open>\<rightarrow>\<close> analyser \<open>\<rightarrow>\<close> destination, and the
  state that refers to them. It is proved equal to the result of the code below
  (\<open>setupAudio_decoded_ok\<close>).
\<close>

definition built :: "load \<Rightarrow> audio_buffer list \<Rightarrow> player \<Rightarrow> player" where
  "built l bufs s =
     s\<lparr>gain_nodes := gain_nodes s @
          replicate (length bufs) \<lparr>gain_value = 1, gain_output = Some (length (compressor_nodes s))\<rparr>,
       source_nodes := source_nodes s @
          map (\<lambda>(b, index). \<lparr>buffer = b, node_loop = load_loop l,
                 node_output = Some ([length (gain_nodes s) ..< length (gain_nodes s) + length bufs] ! index),
                 status = Unstarted\<rparr>)
              (zip bufs [0 ..< length bufs]),
       analyser_nodes := analyser_nodes s @ [\<lparr>fftSize = 256, to_destination = True\<rparr>],
       compressor_nodes := compressor_nodes s @
          [\<lparr>programmed = load_params l, comp_output = Some (length (analyser_nodes s))\<rparr>],
       gainNodes := [length (gain_nodes s) ..< length (gain_nodes s) + length bufs],
       sources := [length (source_nodes s) ..< length (source_nodes s) + length bufs],
       analyserRef := Some (length (analyser_nodes s)),
       dataArrayRef := Some 128,
       compressorRef := Some (length (compressor_nodes s)),
       duration := Math_max (map buf_duration bufs),
       metadata := map meta_of bufs,
       mutedTracks := replicate (length bufs) False\<rparr>"

text \<open>The loads in flight without the one at position \<open>k\<close>.\<close>

definition others :: "nat \<Rightarrow> player \<Rightarrow> load list" where
  "others k s = take k (pending s) @ drop (Suc k) (pending s)"

subsection \<open>Invariants\<close>

text \<open>
  The per-track sequences have one length, the gain references are distinct and valid,
  and each gain node carries 0 when its track is muted and 1 otherwise.
\<close>

definition graph_inv :: "player \<Rightarrow> bool" where
  "graph_inv s \<longleftrightarrow>
     length (gainNodes s) = length (sources s) \<and>
     length (sources s) = length (metadata s) \<and>
     length (metadata s) = length (mutedTracks s) \<and>
     distinct (gainNodes s) \<and>
     (\<forall>i < length (gainNodes s).
        gainNodes s ! i < length (gain_nodes s) \<and>
        gain_value (gain_nodes s ! (gainNodes s ! i)) = (if mutedTracks s ! i then 0 else 1))"

text \<open>Before the first click on Play there is no context, and then nothing plays, no node
  exists, no timer is scheduled and no load is in flight.\<close>

definition fresh_inv :: "player \<Rightarrow> bool" where
  "fresh_inv s \<longleftrightarrow>
     (audioContext s = None \<longrightarrow>
        \<not> isPlaying s \<and> sources s = [] \<and> source_nodes s = [] \<and> intervals s = [] \<and>
        frameRequests s = [] \<and> compressorRef s = None \<and> pending s = [])"

text \<open>Once there are tracks, \<open>duration\<close> is the largest of their durations.\<close>

definition duration_inv :: "player \<Rightarrow> bool" where
  "duration_inv s \<longleftrightarrow>
     (metadata s \<noteq> [] \<longrightarrow> duration s = Num (Max (set (map meta_duration (metadata s)))))"


subsection \<open>A session of three tracks\<close>

text \<open>
  The page (page.tsx) mounts the player on three urls. The buffers decoded for them here
  last 3, 2.5 and 3.2 seconds and arrive at times 2, 1 and 3. \<open>loading\<close> is the session
  after the first click on Play, \<open>loaded\<close> once that load has settled, \<open>playing\<close> after
  the second click on Play.
\<close>

definition demo_urls :: "url list" where
  "demo_urls = [''808s.wav'', ''percs.wav'', ''chords.wav'']"

definition demo_buffer :: "real \<Rightarrow> audio_buffer" where
  "demo_buffer d = \<lparr>buf_duration = d, numberOfChannels = 2, sampleRate = 44100\<rparr>"

definition demo_fetch :: "url \<Rightarrow> audio_buffer settled" where
  "demo_fetch u =
     (if u = ''808s.wav'' then (2, Inr (demo_buffer 3))
      else if u = ''percs.wav'' then (1, Inr (demo_buffer (5 / 2)))
      else if u = ''chords.wav'' then (3, Inr (demo_buffer (16 / 5)))
      else (0, Inl (LoadError u)))"

definition demo_buffers :: "audio_buffer list" where
  "demo_buffers = [demo_buffer 3, demo_buffer (5 / 2), demo_buffer (16 / 5)]"

definition demo_node :: "real \<Rightarrow> bool \<Rightarrow> nat \<Rightarrow> node_status \<Rightarrow> source_node" where
  "demo_node d l g st = \<lparr>buffer = demo_buffer d, node_loop = l, node_output = Some g, status = st\<rparr>"

definition demo_load :: "bool \<Rightarrow> load" where
  "demo_load l = \<lparr>load_context = AudioContext, load_loop = l, load_params = default_params\<rparr>"

definition loading :: player where
  "loading = dispatch demo_fetch demo_urls ClickPlay initial"

definition loaded :: player where
  "loaded = dispatch demo_fetch demo_urls (LoadSettled 0) loading"

definition playing :: player where
  "playing = dispatch demo_fetch demo_urls ClickPlay loaded"

text \<open>
  A loader for which the first two urls fail, the second before the first.
\<close>

definition failing_fetch :: "url \<Rightarrow> audio_buffer settled" where
  "failing_fetch u =
     (if u = ''808s.wav'' then (5, Inl (LoadError u))
      else if u = ''percs.wav'' then (2, Inl (LoadError u))
      else demo_fetch u)"

text \<open>
  The playing session after one tick of the clock interval reading 1.5 s; after a
  loop toggle during playback (\<open>toggling\<close>, the reload in flight; \<open>toggled\<close>, the reload
  settled); and after a click on Stop that follows.
\<close>

definition ticked :: player where
  "ticked = dispatch demo_fetch demo_urls (IntervalFired (3 / 2)) playing"

definition toggling :: player where
  "toggling = dispatch demo_fetch demo_urls LoopToggle ticked"

definition toggled :: player where
  "toggled = dispatch demo_fetch demo_urls (LoadSettled 0) toggling"

definition stop_after_toggle :: player where
  "stop_after_toggle = dispatch demo_fetch demo_urls ClickStop toggled"

text \<open>The playing session after a seek to 1 s.\<close>

definition seeked :: player where
  "seeked = dispatch demo_fetch demo_urls (SliderChange 1) playing"

text \<open>The playing session after Stop, and after the Play that follows.\<close>

definition stopped :: player where
  "stopped = dispatch demo_fetch demo_urls ClickStop playing"

definition replayed :: player where
  "replayed = dispatch demo_fetch demo_urls ClickPlay stopped"

text \<open>
  Two loads that overlap: the loop flag is toggled while the first load is in flight,
  the load the toggle started settles, and then the first load settles.
\<close>

definition overlapping :: player where
  "overlapping = dispatch demo_fetch demo_urls LoopToggle loading"

definition overlapped :: player where
  "overlapped =
     dispatch demo_fetch demo_urls (LoadSettled 0)
       (dispatch demo_fetch demo_urls (LoadSettled 1) overlapping)"

section \<open>Properties\<close>

subsection \<open>Loops, \<open>Promise.all\<close> and \<open>Math.max\<close>\<close>

lemma forEach_length: "length (snd (forEach f ids h)) = length h"
  by (induction ids arbitrary: h) (auto split: prod.splits option.splits)

lemma first_rejection_None:
  "first_rejection rs = None \<longleftrightarrow> (\<forall>r \<in> set rs. \<exists>x. snd r = Inr x)"
  by (induction rs rule: first_rejection.induct) (auto split: option.splits)

lemma first_rejection_Some:
  "first_rejection rs = Some (t, e) \<Longrightarrow>
   (t, Inl e) \<in> set rs \<and> (\<forall>t' e'. (t', Inl e') \<in> set rs \<longrightarrow> t \<le> t')"
proof (induction rs arbitrary: t e rule: first_rejection.induct)
  case 1
  then show ?case by simp
next
  case (2 t0 x rs)
  then show ?case by auto
next
  case (3 t0 e0 rs)
  show ?case
  proof (cases "first_rejection rs")
    case None
    with first_rejection_None [of rs] have "\<forall>t' e'. (t', Inl e') \<notin> set rs"
      by force
    with 3(2) None show ?thesis by auto
  next
    case (Some p)
    obtain t1 e1 where p: "p = (t1, e1)" by (cases p)
    from 3(1) [OF Some [unfolded p]]
    have ih: "(t1, Inl e1) \<in> set rs" "\<forall>t' e'. (t', Inl e') \<in> set rs \<longrightarrow> t1 \<le> t'"
      by simp_all
    show ?thesis
    proof (cases "t1 < t0")
      case True
      with 3(2) Some p have "t = t1" "e = e1" by simp_all
      with ih True show ?thesis by auto
    next
      case False
      with 3(2) Some p have "t = t0" "e = e0" by simp_all
      with ih False show ?thesis by fastforce
    qed
  qed
qed

lemma fulfilled_all:
  "\<forall>r \<in> set rs. \<exists>x. snd r = Inr x \<Longrightarrow> map snd rs = map Inr (fulfilled rs)"
  by (induction rs rule: fulfilled.induct) auto

lemma fulfilled_map_Inr: "map snd rs = map Inr xs \<Longrightarrow> fulfilled rs = xs"
  by (induction rs arbitrary: xs rule: fulfilled.induct) auto

lemma promise_all_Inr_D: "promise_all rs = Inr xs \<Longrightarrow> map snd rs = map Inr xs"
  using fulfilled_all [of rs] first_rejection_None [of rs]
  by (auto simp: promise_all_def split: option.splits)

lemma promise_all_fulfilled: "map snd rs = map Inr xs \<Longrightarrow> promise_all rs = Inr xs"
proof -
  assume m: "map snd rs = map Inr xs"
  have "\<forall>r \<in> set rs. \<exists>x. snd r = Inr x"
  proof
    fix r assume "r \<in> set rs"
    then have "snd r \<in> set (map snd rs)" by simp
    with m show "\<exists>x. snd r = Inr x" by auto
  qed
  then have "first_rejection rs = None" by (simp add: first_rejection_None)
  with fulfilled_map_Inr [OF m] show ?thesis by (simp add: promise_all_def)
qed

lemma promise_all_Inl_D:
  "promise_all rs = Inl e \<Longrightarrow>
   \<exists>t. (t, Inl e) \<in> set rs \<and> (\<forall>t' e'. (t', Inl e') \<in> set rs \<longrightarrow> t \<le> t')"
  using first_rejection_Some [of rs]
  by (auto simp: promise_all_def split: option.splits)

lemma promise_all_length: "promise_all (map f xs) = Inr ys \<Longrightarrow> length ys = length xs"
  using map_eq_imp_length_eq [of "snd \<circ> f" xs Inr ys] by (auto dest: promise_all_Inr_D)

lemma foldl_js_max_Num:
  "foldl js_max (Num a) (map Num xs) = Num (Max (insert a (set xs)))"
proof (induction xs arbitrary: a)
  case Nil
  then show ?case by simp
next
  case (Cons x xs)
  have "Max (insert (max a x) (set xs)) = Max (insert a (insert x (set xs)))"
    by (cases "xs = []") (simp_all add: max.assoc)
  with Cons show ?case by simp
qed

lemma Math_max_Cons: "Math_max (x # xs) = Num (Max (set (x # xs)))"
  by (simp add: Math_max_def foldl_js_max_Num)

lemma Math_max_nonempty: "xs \<noteq> [] \<Longrightarrow> Math_max xs = Num (Max (set xs))"
  by (cases xs) (simp_all add: Math_max_Cons del: set_simps)

subsection \<open>The effect\<close>

lemma setupAudio_decoded_ok: "setupAudio_decoded l bufs s = (None, built l bufs s)"
  by (simp add: setupAudio_decoded_def updateCompressorParams_def built_def Let_def)

lemma initAudio_resumed_ok:
  "k < length (pending s) \<Longrightarrow> promise_all (map fd urls) = Inr bufs \<Longrightarrow>
   initAudio_resumed fd urls k s =
     (built (pending s ! k) bufs (s\<lparr>pending := others k s\<rparr>))\<lparr>isLoading := False\<rparr>"
  by (simp add: initAudio_resumed_def setupAudio_def setupAudio_decoded_ok others_def)

lemma initAudio_resumed_fail:
  "k < length (pending s) \<Longrightarrow> promise_all (map fd urls) = Inl e \<Longrightarrow>
   initAudio_resumed fd urls k s = s\<lparr>pending := others k s, console := console s @ [e]\<rparr>"
  by (simp add: initAudio_resumed_def setupAudio_def others_def)

lemma initAudio_resumed_none:
  "\<not> k < length (pending s) \<Longrightarrow> initAudio_resumed fd urls k s = s"
  by (simp add: initAudio_resumed_def)

text \<open>
  A property of the state that ignores \<open>isLoading\<close>, the loads in flight and the
  console, and that every successful load establishes, survives the end of a load.
\<close>

lemma initAudio_resumed_cases:
  assumes "P s"
    and "\<And>e. P (s\<lparr>pending := others k s, console := console s @ [e]\<rparr>)"
    and "\<And>bufs. promise_all (map fd urls) = Inr bufs \<Longrightarrow>
           P ((built (pending s ! k) bufs (s\<lparr>pending := others k s\<rparr>))\<lparr>isLoading := False\<rparr>)"
  shows "P (initAudio_resumed fd urls k s)"
proof (cases "k < length (pending s)")
  case False
  with assms(1) show ?thesis by (simp add: initAudio_resumed_none)
next
  case True
  show ?thesis
  proof (cases "promise_all (map fd urls)")
    case (Inl e)
    with assms(2) show ?thesis by (simp add: initAudio_resumed_fail [OF True])
  next
    case (Inr bufs)
    with assms(3) show ?thesis by (simp add: initAudio_resumed_ok [OF True])
  qed
qed

subsection \<open>One command at a time\<close>

lemma report_simps [simp]:
  "report None s = s"
  "report (Some x) s = s\<lparr>console := console s @ [x]\<rparr>"
  by (simp_all add: report_def)

lemma handlePlay_fresh:
  "audioContext s = None \<Longrightarrow> handlePlay s = (None, s\<lparr>audioContext := Some AudioContext\<rparr>)"
  by (simp add: handlePlay_def)

lemma handlePlay_context:
  "audioContext s = Some c \<Longrightarrow>
   audioContext (snd (handlePlay s)) = Some c \<and> loop (snd (handlePlay s)) = loop s"
  by (simp add: handlePlay_def drawFrequencyData_def draw_def Let_def
      split: prod.splits option.splits)

lemma dispatch_ClickPlay_fresh:
  "audioContext s = None \<Longrightarrow>
   dispatch fd urls ClickPlay s = initAudio AudioContext (s\<lparr>audioContext := Some AudioContext\<rparr>)"
  by (simp add: dispatch_def handlePlay_fresh useEffect_def)

lemma dispatch_ClickPlay_context:
  "audioContext s = Some c \<Longrightarrow>
   dispatch fd urls ClickPlay s = report (fst (handlePlay s)) (snd (handlePlay s))"
  using handlePlay_context [of s c]
  by (cases "handlePlay s") (auto simp: dispatch_def useEffect_def report_def split: option.splits)

lemma dispatch_LoopToggle:
  "dispatch fd urls LoopToggle s =
     (case audioContext s of
        None \<Rightarrow> s\<lparr>loop := \<not> loop s\<rparr>
      | Some c \<Rightarrow> initAudio c (s\<lparr>loop := \<not> loop s\<rparr>))"
  by (simp add: dispatch_def handleLoopToggle_def useEffect_def split: option.splits)

lemma dispatch_LoadSettled:
  "dispatch fd urls (LoadSettled k) s = initAudio_resumed fd urls k s"
  by (simp add: dispatch_def)

lemma handleStop_frame:
  "audioContext (snd (handleStop s)) = audioContext s \<and> loop (snd (handleStop s)) = loop s"
  by (simp add: handleStop_def split: prod.splits option.splits)

lemma handleSliderChange_frame:
  "audioContext (snd (handleSliderChange t s)) = audioContext s \<and>
   loop (snd (handleSliderChange t s)) = loop s"
  by (simp add: handleSliderChange_def split: prod.splits)

lemma toggleMute_frame:
  "audioContext (snd (toggleMute i s)) = audioContext s \<and> loop (snd (toggleMute i s)) = loop s"
  by (simp add: toggleMute_def Let_def)

lemma handleCompressorChange_frame:
  "audioContext (snd (handleCompressorChange name v s)) = audioContext s \<and>
   loop (snd (handleCompressorChange name v s)) = loop s"
  by (simp add: handleCompressorChange_def Let_def split: prod.splits option.splits)

lemma run_draws_frame:
  "audioContext (run_draws k s) = audioContext s \<and> loop (run_draws k s) = loop s"
  by (induction k arbitrary: s) (auto simp: draw_def Let_def report_def split: option.splits)

lemma report_frame: "audioContext (report e s) = audioContext s \<and> loop (report e s) = loop s"
  by (cases e) simp_all

lemma useEffect_same:
  "audioContext s' = audioContext s \<Longrightarrow> loop s' = loop s \<Longrightarrow> useEffect s s' = s'"
  by (simp add: useEffect_def)

lemma handler_frame:
  "ev \<noteq> ClickPlay \<Longrightarrow> ev \<noteq> LoopToggle \<Longrightarrow>
   audioContext (snd (handler ev s)) = audioContext s \<and> loop (snd (handler ev s)) = loop s"
  by (cases ev)
     (simp_all add: handleStop_frame toggleMute_frame handleCompressorChange_frame
        handleSliderChange_frame run_draws_frame)

lemma dispatch_handler:
  "\<forall>k. ev \<noteq> LoadSettled k \<Longrightarrow>
   dispatch fd urls ev s = useEffect s (report (fst (handler ev s)) (snd (handler ev s)))"
  by (cases ev; cases "handler ev s") (simp_all add: dispatch_def)

lemma dispatch_other:
  "ev \<noteq> ClickPlay \<Longrightarrow> ev \<noteq> LoopToggle \<Longrightarrow> \<forall>k. ev \<noteq> LoadSettled k \<Longrightarrow>
   dispatch fd urls ev s = report (fst (handler ev s)) (snd (handler ev s))"
proof -
  assume ev: "ev \<noteq> ClickPlay" "ev \<noteq> LoopToggle" and l: "\<forall>k. ev \<noteq> LoadSettled k"
  obtain e s' where h: "handler ev s = (e, s')" by (cases "handler ev s")
  from handler_frame [OF ev, of s] h
  have "audioContext (report e s') = audioContext s" "loop (report e s') = loop s"
    by (simp_all add: report_frame)
  then show ?thesis
    by (simp add: dispatch_handler [OF l] h useEffect_same)
qed

text \<open>
  How an invariant is carried through one step: through what the handlers do, through
  the start of a load, and through the end of a load.
\<close>

lemma dispatch_cases:
  assumes "\<And>e. P (report e (snd (handler ev s)))"
    and "\<And>c s'. P s' \<Longrightarrow> P (initAudio c s')"
    and "\<And>k. P (initAudio_resumed fd urls k s)"
  shows "P (dispatch fd urls ev s)"
proof (cases "\<exists>k. ev = LoadSettled k")
  case True
  with assms(3) show ?thesis by (auto simp: dispatch_LoadSettled)
next
  case False
  then have l: "\<forall>k. ev \<noteq> LoadSettled k" by simp
  from assms(1,2) show ?thesis
    by (simp add: dispatch_handler [OF l] useEffect_def split: option.splits)
qed

subsection \<open>Which playback nodes a session refers to\<close>

text \<open>
  No handler creates a playback node or changes the references in \<open>sources\<close>; only the
  effect does, and then the session has one node per url.
\<close>

lemma handlePlay_no_new_node:
  "sources (snd (handlePlay s)) = sources s \<and>
   length (source_nodes (snd (handlePlay s))) = length (source_nodes s)"
  using forEach_length [of "node_start 0" "sources s" "source_nodes s"]
  by (cases "forEach (node_start 0) (sources s) (source_nodes s)")
     (auto simp: handlePlay_def drawFrequencyData_def draw_def Let_def split: option.splits)

lemma handleSliderChange_no_new_node:
  "currentTime (snd (handleSliderChange t s)) = t \<and>
   sources (snd (handleSliderChange t s)) = sources s \<and>
   length (source_nodes (snd (handleSliderChange t s))) = length (source_nodes s)"
  using forEach_length [of "stop_then_start t" "sources s" "source_nodes s"]
  by (cases "forEach (stop_then_start t) (sources s) (source_nodes s)")
     (simp add: handleSliderChange_def)

lemma run_draws_sources: "sources (run_draws k s) = sources s"
  by (induction k arbitrary: s) (auto simp: draw_def Let_def report_def split: option.splits)

lemma handler_sources: "sources (snd (handler ev s)) = sources s"
proof (cases ev)
  case ClickPlay
  then show ?thesis by (simp add: handlePlay_no_new_node)
next
  case ClickStop
  then show ?thesis
    by (cases "forEach node_stop (sources s) (source_nodes s)")
       (auto simp: handleStop_def split: option.splits)
next
  case (SliderChange t)
  then show ?thesis by (simp add: handleSliderChange_no_new_node)
next
  case LoopToggle
  then show ?thesis by (simp add: handleLoopToggle_def)
next
  case (ClickMute i)
  then show ?thesis by (simp add: toggleMute_def Let_def)
next
  case (CompressorChange name v)
  then show ?thesis
    by (simp add: handleCompressorChange_def Let_def split: option.splits prod.splits)
next
  case (IntervalFired now)
  then show ?thesis by simp
next
  case AnimationFrame
  then show ?thesis by (simp add: run_draws_sources)
next
  case (LoadSettled k)
  then show ?thesis by simp
qed

lemma sources_report: "sources (report e s) = sources s"
  by (cases e) simp_all

lemma dispatch_sources:
  "sources (dispatch fd urls ev s) = sources s \<or> length (sources (dispatch fd urls ev s)) = length urls"
proof (rule dispatch_cases [where P = "\<lambda>x. sources x = sources s \<or> length (sources x) = length urls"])
  fix e show "sources (report e (snd (handler ev s))) = sources s \<or>
    length (sources (report e (snd (handler ev s)))) = length urls"
    by (simp add: sources_report handler_sources)
next
  fix c and s' :: player
  assume "sources s' = sources s \<or> length (sources s') = length urls"
  then show "sources (initAudio c s') = sources s \<or> length (sources (initAudio c s')) = length urls"
    by (simp add: initAudio_def)
next
  fix k
  show "sources (initAudio_resumed fd urls k s) = sources s \<or>
    length (sources (initAudio_resumed fd urls k s)) = length urls"
    by (rule initAudio_resumed_cases
          [where P = "\<lambda>x. sources x = sources s \<or> length (sources x) = length urls"])
       (simp_all add: built_def promise_all_length)
qed

lemma reachable_whole: "reachable urls s \<Longrightarrow> sources s = [] \<or> length (sources s) = length urls"
proof (induction rule: reachable.induct)
  case reachable_initial
  then show ?case by (simp add: initial_def)
next
  case (reachable_dispatch s ev fd)
  with dispatch_sources [of fd urls ev s] show ?case by auto
qed

subsection \<open>The graph invariant is preserved by every handler\<close>

lemma graph_inv_initial: "graph_inv initial"
  by (simp add: graph_inv_def initial_def)

lemma graph_inv_built: "graph_inv (built l bufs s)"
  by (simp add: graph_inv_def built_def nth_append)

lemma graph_inv_cong:
  "gainNodes s' = gainNodes s \<Longrightarrow> sources s' = sources s \<Longrightarrow> metadata s' = metadata s \<Longrightarrow>
   mutedTracks s' = mutedTracks s \<Longrightarrow> gain_nodes s' = gain_nodes s \<Longrightarrow>
   graph_inv s' = graph_inv s"
  by (simp add: graph_inv_def)

lemma graph_inv_initAudio: "graph_inv (initAudio c s) = graph_inv s"
  by (rule graph_inv_cong) (simp_all add: initAudio_def)

lemma graph_inv_initAudio_resumed:
  assumes "graph_inv s"
  shows "graph_inv (initAudio_resumed fd urls k s)"
proof (rule initAudio_resumed_cases [where P = graph_inv])
  show "graph_inv s" by (rule assms)
next
  fix e
  have "graph_inv (s\<lparr>pending := others k s, console := console s @ [e]\<rparr>) = graph_inv s"
    by (rule graph_inv_cong) simp_all
  with assms show "graph_inv (s\<lparr>pending := others k s, console := console s @ [e]\<rparr>)"
    by simp
next
  fix bufs
  have "graph_inv ((built (pending s ! k) bufs (s\<lparr>pending := others k s\<rparr>))\<lparr>isLoading := False\<rparr>) =
        graph_inv (built (pending s ! k) bufs (s\<lparr>pending := others k s\<rparr>))"
    by (rule graph_inv_cong) simp_all
  then show "graph_inv ((built (pending s ! k) bufs (s\<lparr>pending := others k s\<rparr>))\<lparr>isLoading := False\<rparr>)"
    by (simp add: graph_inv_built)
qed

lemma graph_inv_handlePlay:
  "graph_inv s \<Longrightarrow> graph_inv (report (fst (handlePlay s)) (snd (handlePlay s)))"
  by (auto simp: graph_inv_def handlePlay_def drawFrequencyData_def draw_def Let_def report_def
      split: prod.splits option.splits)

lemma graph_inv_handleStop:
  "graph_inv s \<Longrightarrow> graph_inv (report (fst (handleStop s)) (snd (handleStop s)))"
  by (auto simp: graph_inv_def handleStop_def report_def split: prod.splits option.splits)

lemma graph_inv_handleSliderChange:
  "graph_inv s \<Longrightarrow> graph_inv (report (fst (handleSliderChange t s)) (snd (handleSliderChange t s)))"
  by (auto simp: graph_inv_def handleSliderChange_def report_def split: prod.splits option.splits)

lemma graph_inv_handleCompressorChange:
  "graph_inv s \<Longrightarrow>
   graph_inv (report (fst (handleCompressorChange name v s)) (snd (handleCompressorChange name v s)))"
  by (auto simp: graph_inv_def handleCompressorChange_def updateCompressorParams_def Let_def report_def
      split: prod.splits option.splits if_splits)

lemma run_draws_graph:
  "gainNodes (run_draws k s) = gainNodes s \<and> sources (run_draws k s) = sources s \<and>
   metadata (run_draws k s) = metadata s \<and> mutedTracks (run_draws k s) = mutedTracks s \<and>
   gain_nodes (run_draws k s) = gain_nodes s"
  by (induction k arbitrary: s) (auto simp: draw_def Let_def report_def split: option.splits)

lemma toggleMute_ok:
  assumes "graph_inv s" "index < length (metadata s)"
  shows "toggleMute index s =
     (None, s\<lparr>mutedTracks := (mutedTracks s)[index := \<not> mutedTracks s ! index],
               gain_nodes := (gain_nodes s)
                 [gainNodes s ! index := (gain_nodes s ! (gainNodes s ! index))
                    \<lparr>gain_value := (if mutedTracks s ! index then 1 else 0)\<rparr>]\<rparr>)"
  using assms by (simp add: toggleMute_def graph_inv_def Let_def)

lemma graph_inv_toggleMute:
  assumes "graph_inv s" "index < length (metadata s)"
  shows "graph_inv (snd (toggleMute index s))"
  using assms
  by (auto simp: toggleMute_ok graph_inv_def nth_list_update nth_eq_iff_index_eq)

subsection \<open>The three-track session, step by step\<close>

lemma demo_promise: "promise_all (map demo_fetch demo_urls) = Inr demo_buffers"
  by (simp add: promise_all_def demo_fetch_def demo_urls_def demo_buffers_def)

lemma buf_duration_demo [simp]: "buf_duration (demo_buffer d) = d"
  by (simp add: demo_buffer_def)

lemma upt_3: "[n ..< n + 3] = [n, Suc n, Suc (Suc n)]"
  by (simp add: upt_rec numeral_3_eq_3)

lemma loading_eq:
  "loading = initial\<lparr>audioContext := Some AudioContext, isLoading := True, pending := [demo_load False]\<rparr>"
  unfolding loading_def
  by (simp add: dispatch_ClickPlay_fresh initial_def initAudio_def demo_load_def)

lemma loaded_eq:
  "loaded = initial
     \<lparr>audioContext := Some AudioContext,
      gain_nodes := replicate 3 \<lparr>gain_value = 1, gain_output = Some 0\<rparr>,
      source_nodes := [demo_node 3 False 0 Unstarted, demo_node (5 / 2) False 1 Unstarted,
                       demo_node (16 / 5) False 2 Unstarted],
      analyser_nodes := [\<lparr>fftSize = 256, to_destination = True\<rparr>],
      compressor_nodes := [\<lparr>programmed = default_params, comp_output = Some 0\<rparr>],
      gainNodes := [0, 1, 2], sources := [0, 1, 2],
      analyserRef := Some 0, dataArrayRef := Some 128, compressorRef := Some 0,
      duration := Num (16 / 5),
      metadata := map meta_of demo_buffers,
      mutedTracks := [False, False, False]\<rparr>"
proof -
  have p: "0 < length (pending loading)" by (simp add: loading_eq)
  show ?thesis
    unfolding loaded_def dispatch_LoadSettled initAudio_resumed_ok [OF p demo_promise]
    by (simp add: loading_eq initial_def built_def others_def demo_load_def
        demo_buffers_def demo_node_def upt_3 numeral_3_eq_3 Math_max_Cons)
qed

lemma playing_eq:
  "playing = loaded
     \<lparr>source_nodes := [demo_node 3 False 0 (Started 0), demo_node (5 / 2) False 1 (Started 0),
                       demo_node (16 / 5) False 2 (Started 0)],
      isPlaying := True, animationFrameRef := Some 0, frameRequests := [0],
      intervalRef := Some 1, intervals := [1], nextHandle := 2\<rparr>"
  unfolding playing_def
  by (simp add: dispatch_ClickPlay_context [where c = AudioContext] loaded_eq initial_def
      handlePlay_def drawFrequencyData_def draw_def Let_def node_start_def demo_node_def)

subsection \<open>Reachable states\<close>

lemma graph_inv_handler:
  assumes "graph_inv s" "enabled ev s"
  shows "graph_inv (report e (snd (handler ev s)))"
proof -
  have r: "graph_inv (report e (snd (handler ev s))) = graph_inv (snd (handler ev s))"
    by (rule graph_inv_cong) (cases e; simp)+
  have "graph_inv (snd (handler ev s))"
  proof (cases ev)
    case ClickPlay
    with graph_inv_handlePlay [OF assms(1)] show ?thesis
      by (cases "fst (handlePlay s)") (simp_all add: graph_inv_def)
  next
    case ClickStop
    with graph_inv_handleStop [OF assms(1)] show ?thesis
      by (cases "fst (handleStop s)") (simp_all add: graph_inv_def)
  next
    case (SliderChange t)
    with graph_inv_handleSliderChange [OF assms(1), of t] show ?thesis
      by (cases "fst (handleSliderChange t s)") (simp_all add: graph_inv_def)
  next
    case LoopToggle
    have "graph_inv (s\<lparr>loop := \<not> loop s\<rparr>) = graph_inv s"
      by (rule graph_inv_cong) simp_all
    with assms(1) LoopToggle show ?thesis by (simp add: handleLoopToggle_def)
  next
    case (ClickMute index)
    with assms have i: "index < length (metadata s)" by simp
    with ClickMute show ?thesis
      by (simp add: graph_inv_toggleMute [OF assms(1) i])
  next
    case (CompressorChange name v)
    with graph_inv_handleCompressorChange [OF assms(1), of name v] show ?thesis
      by (cases "fst (handleCompressorChange name v s)") (simp_all add: graph_inv_def)
  next
    case (IntervalFired now)
    have "graph_inv (s\<lparr>currentTime := now\<rparr>) = graph_inv s"
      by (rule graph_inv_cong) simp_all
    with assms(1) IntervalFired show ?thesis by simp
  next
    case AnimationFrame
    have "graph_inv (run_draws (length (frameRequests s)) (s\<lparr>frameRequests := []\<rparr>)) = graph_inv s"
      by (rule graph_inv_cong) (simp_all add: run_draws_graph)
    with assms(1) AnimationFrame show ?thesis by simp
  next
    case (LoadSettled k)
    with assms(1) show ?thesis by simp
  qed
  with r show ?thesis by simp
qed

lemma graph_inv_dispatch:
  assumes "graph_inv s" "enabled ev s"
  shows "graph_inv (dispatch fd urls ev s)"
proof (rule dispatch_cases [where P = graph_inv])
  fix e show "graph_inv (report e (snd (handler ev s)))"
    by (rule graph_inv_handler [OF assms])
next
  fix c and s' :: player
  assume "graph_inv s'"
  then show "graph_inv (initAudio c s')" by (simp add: graph_inv_initAudio)
next
  fix k show "graph_inv (initAudio_resumed fd urls k s)"
    by (rule graph_inv_initAudio_resumed [OF assms(1)])
qed

lemma reachable_graph_inv: "reachable urls s \<Longrightarrow> graph_inv s"
  by (induction rule: reachable.induct) (simp_all add: graph_inv_initial graph_inv_dispatch)

lemma reachable_loading: "reachable demo_urls loading"
  unfolding loading_def
  by (rule reachable_dispatch [OF reachable_initial]) (simp add: initial_def)

lemma reachable_loaded: "reachable demo_urls loaded"
  unfolding loaded_def
  by (rule reachable_dispatch [OF reachable_loading]) (simp add: loading_eq)

lemma reachable_playing: "reachable demo_urls playing"
  unfolding playing_def
  by (rule reachable_dispatch [OF reachable_loaded]) (simp add: loaded_eq initial_def)

subsection \<open>Claims about the per-track sequences\<close>

text \<open>
  Claim C9. In every state the component can reach (from the initial state, by any
  sequence of commands the markup lets through: play, stop, seek, mute, loop, compressor
  change, timer ticks, with loads that succeed or fail), the number of gain controls,
  the number of playback nodes, the number of metadata entries (one per track) and the
  number of muted flags are equal.
\<close>

theorem C9_lengths:
  assumes "reachable urls s"
  shows "length (gainNodes s) = length (sources s) \<and>
         length (sources s) = length (metadata s) \<and>
         length (metadata s) = length (mutedTracks s)"
  using reachable_graph_inv [OF assms] by (simp add: graph_inv_def)

theorem C9_lengths_witness:
  "reachable demo_urls playing \<and>
   length (gainNodes playing) = 3 \<and> length (sources playing) = 3 \<and>
   length (metadata playing) = 3 \<and> length (mutedTracks playing) = 3"
proof -
  have "length (sources playing) = 3"
    by (simp add: playing_eq loaded_eq)
  with C9_lengths [OF reachable_playing] reachable_playing show ?thesis
    by simp
qed

lemma gain_value_same: "gain_value g = v \<Longrightarrow> g\<lparr>gain_value := v\<rparr> = g"
  by (cases g) simp

lemma list_update_same: "xs ! i = v \<Longrightarrow> xs[i := v] = xs"
  by auto

text \<open>
  Claim C7. For a track index \<open>index\<close> of a reachable session, \<open>toggleMute\<close> throws
  nothing, flips the muted flag, and sets that track's gain to 0 when it mutes and to 1
  when it unmutes; it leaves the playback node references, every playback node and
  \<open>isPlaying\<close> as they are; and toggling twice gives back the state it started from,
  gain values included.
\<close>

theorem C7_mute:
  assumes "reachable urls s" "index < length (metadata s)"
  shows "fst (toggleMute index s) = None \<and>
         mutedTracks (snd (toggleMute index s)) ! index = (\<not> mutedTracks s ! index) \<and>
         gain_value (gain_nodes (snd (toggleMute index s)) ! (gainNodes s ! index)) =
           (if mutedTracks s ! index then 1 else 0) \<and>
         gainNodes (snd (toggleMute index s)) = gainNodes s \<and>
         sources (snd (toggleMute index s)) = sources s \<and>
         source_nodes (snd (toggleMute index s)) = source_nodes s \<and>
         isPlaying (snd (toggleMute index s)) = isPlaying s \<and>
         snd (toggleMute index (snd (toggleMute index s))) = s"
proof -
  have inv: "graph_inv s" by (rule reachable_graph_inv [OF assms(1)])
  let ?s1 = "snd (toggleMute index s)"
  have inv1: "graph_inv ?s1" by (rule graph_inv_toggleMute [OF inv assms(2)])
  have idx1: "index < length (metadata ?s1)"
    using assms(2) by (simp add: toggleMute_ok [OF inv assms(2)])
  have i: "index < length (mutedTracks s)" "index < length (gainNodes s)"
    "gainNodes s ! index < length (gain_nodes s)"
    "gain_value (gain_nodes s ! (gainNodes s ! index)) = (if mutedTracks s ! index then 0 else 1)"
    using inv assms(2) by (simp_all add: graph_inv_def)
  have twice: "snd (toggleMute index ?s1) = s"
  proof (cases "mutedTracks s ! index")
    case True
    with i show ?thesis
      by (simp add: toggleMute_ok [OF inv1 idx1])
         (simp add: toggleMute_ok [OF inv assms(2)] gain_value_same list_update_same)
  next
    case False
    with i show ?thesis
      by (simp add: toggleMute_ok [OF inv1 idx1])
         (simp add: toggleMute_ok [OF inv assms(2)] gain_value_same list_update_same)
  qed
  show ?thesis
    using i twice by (simp add: toggleMute_ok [OF inv assms(2)])
qed

theorem C7_mute_witness:
  "reachable demo_urls playing \<and> (1::nat) < length (metadata playing) \<and>
   fst (toggleMute 1 playing) = None \<and>
   gain_value (gain_nodes (snd (toggleMute 1 playing)) ! (gainNodes playing ! 1)) = 0 \<and>
   source_nodes (snd (toggleMute 1 playing)) = source_nodes playing \<and>
   snd (toggleMute 1 (snd (toggleMute 1 playing))) = playing"
proof -
  have i: "(1::nat) < length (metadata playing)" "\<not> mutedTracks playing ! 1"
    by (simp_all add: playing_eq loaded_eq demo_buffers_def)
  with C7_mute [OF reachable_playing i(1)] reachable_playing show ?thesis
    by simp
qed

subsection \<open>Claims about loading\<close>

lemma meta_duration_meta_of: "map meta_duration (map meta_of bufs) = map buf_duration bufs"
  by (simp add: meta_of_def)

lemma duration_inv_built: "duration_inv (built l bufs s)"
proof -
  have m: "metadata (built l bufs s) = map meta_of bufs"
    "duration (built l bufs s) = Math_max (map buf_duration bufs)"
    by (simp_all add: built_def)
  have "bufs \<noteq> [] \<Longrightarrow> Math_max (map buf_duration bufs) = Num (Max (set (map buf_duration bufs)))"
    by (rule Math_max_nonempty) simp
  then show ?thesis
    unfolding duration_inv_def m meta_duration_meta_of by simp
qed

lemma duration_inv_cong:
  "duration s' = duration s \<Longrightarrow> metadata s' = metadata s \<Longrightarrow> duration_inv s' = duration_inv s"
  by (simp add: duration_inv_def)

lemma run_draws_session:
  "duration (run_draws k s) = duration s \<and> metadata (run_draws k s) = metadata s"
  by (induction k arbitrary: s) (auto simp: draw_def Let_def report_def split: option.splits)

lemma handler_session:
  "duration (snd (handler ev s)) = duration s \<and> metadata (snd (handler ev s)) = metadata s"
proof (cases ev)
  case ClickPlay
  then show ?thesis
    by (cases "forEach (node_start 0) (sources s) (source_nodes s)")
       (auto simp: handlePlay_def drawFrequencyData_def draw_def Let_def split: option.splits)
next
  case ClickStop
  then show ?thesis
    by (cases "forEach node_stop (sources s) (source_nodes s)")
       (auto simp: handleStop_def split: option.splits)
next
  case (SliderChange t)
  then show ?thesis
    by (cases "forEach (stop_then_start t) (sources s) (source_nodes s)")
       (simp add: handleSliderChange_def)
next
  case LoopToggle
  then show ?thesis by (simp add: handleLoopToggle_def)
next
  case (ClickMute i)
  then show ?thesis by (simp add: toggleMute_def Let_def)
next
  case (CompressorChange name v)
  then show ?thesis
    by (simp add: handleCompressorChange_def Let_def split: option.splits prod.splits)
next
  case (IntervalFired now)
  then show ?thesis by simp
next
  case AnimationFrame
  then show ?thesis by (simp add: run_draws_session)
next
  case (LoadSettled k)
  then show ?thesis by simp
qed

lemma session_report: "duration (report e s) = duration s \<and> metadata (report e s) = metadata s"
  by (cases e) simp_all

lemma duration_inv_dispatch:
  assumes "duration_inv s"
  shows "duration_inv (dispatch fd urls ev s)"
proof (rule dispatch_cases [where P = duration_inv])
  fix e
  have "duration_inv (report e (snd (handler ev s))) = duration_inv s"
    by (rule duration_inv_cong) (simp_all add: session_report handler_session)
  with assms show "duration_inv (report e (snd (handler ev s)))" by simp
next
  fix c and s' :: player
  assume "duration_inv s'"
  moreover have "duration_inv (initAudio c s') = duration_inv s'"
    by (rule duration_inv_cong) (simp_all add: initAudio_def)
  ultimately show "duration_inv (initAudio c s')" by simp
next
  fix k
  show "duration_inv (initAudio_resumed fd urls k s)"
  proof (rule initAudio_resumed_cases [where P = duration_inv])
    show "duration_inv s" by (rule assms)
  next
    fix e
    have "duration_inv (s\<lparr>pending := others k s, console := console s @ [e]\<rparr>) = duration_inv s"
      by (rule duration_inv_cong) simp_all
    with assms show "duration_inv (s\<lparr>pending := others k s, console := console s @ [e]\<rparr>)"
      by simp
  next
    fix bufs
    have "duration_inv ((built (pending s ! k) bufs (s\<lparr>pending := others k s\<rparr>))\<lparr>isLoading := False\<rparr>) =
          duration_inv (built (pending s ! k) bufs (s\<lparr>pending := others k s\<rparr>))"
      by (rule duration_inv_cong) simp_all
    then show "duration_inv ((built (pending s ! k) bufs (s\<lparr>pending := others k s\<rparr>))\<lparr>isLoading := False\<rparr>)"
      by (simp add: duration_inv_built)
  qed
qed

lemma reachable_duration_inv: "reachable urls s \<Longrightarrow> duration_inv s"
  by (induction rule: reachable.induct)
     (simp_all add: duration_inv_dispatch, simp add: duration_inv_def initial_def)

lemma settled_duration:
  assumes "k < length (pending s)" "promise_all (map fd urls) = Inr bufs"
  shows "duration (dispatch fd urls (LoadSettled k) s) = Math_max (map buf_duration bufs)"
  by (simp add: dispatch_LoadSettled initAudio_resumed_ok [OF assms] built_def)

text \<open>
  Claim C8. When a load in flight settles with every buffer decoded (at least one
  track), the \<open>duration\<close> state becomes the maximum of the buffers' durations, and in
  every reachable state that has tracks \<open>duration\<close> is the maximum of the tracks'
  durations; for buffers of 3.0, 2.5 and 3.2 seconds it is 3.2 (the witness).
\<close>

theorem C8_duration:
  assumes "k < length (pending s)" "promise_all (map fetch_decode urls) = Inr audioBuffers"
    "audioBuffers \<noteq> []"
  shows "duration (dispatch fetch_decode urls (LoadSettled k) s) =
           Num (Max (set (map buf_duration audioBuffers))) \<and>
         (\<forall>s'. reachable urls s' \<and> metadata s' \<noteq> [] \<longrightarrow>
            duration s' = Num (Max (set (map meta_duration (metadata s')))))"
proof -
  have "duration (dispatch fetch_decode urls (LoadSettled k) s) =
          Num (Max (set (map buf_duration audioBuffers)))"
    using assms(3) by (simp add: settled_duration [OF assms(1,2)] Math_max_nonempty)
  moreover have "\<forall>s'. reachable urls s' \<and> metadata s' \<noteq> [] \<longrightarrow>
      duration s' = Num (Max (set (map meta_duration (metadata s'))))"
    using reachable_duration_inv [of urls] by (auto simp: duration_inv_def)
  ultimately show ?thesis by blast
qed

theorem C8_duration_witness:
  "0 < length (pending loading) \<and>
   promise_all (map demo_fetch demo_urls) = Inr demo_buffers \<and> demo_buffers \<noteq> [] \<and>
   map buf_duration demo_buffers = [3, 5 / 2, 16 / 5] \<and>
   duration (dispatch demo_fetch demo_urls (LoadSettled 0) loading) = Num (16 / 5) \<and>
   reachable demo_urls playing \<and> metadata playing \<noteq> [] \<and> duration playing = Num (16 / 5)"
proof -
  have c: "0 < length (pending loading)"
    by (simp add: loading_eq)
  have n: "demo_buffers \<noteq> []" "map buf_duration demo_buffers = [3, 5 / 2, 16 / 5]"
    by (simp_all add: demo_buffers_def)
  have m: "metadata playing \<noteq> []" "map meta_duration (metadata playing) = [3, 5 / 2, 16 / 5]"
    by (simp_all add: playing_eq loaded_eq demo_buffers_def meta_of_def)
  have x: "Max (set (map buf_duration demo_buffers)) = 16 / 5"
    "Max (set (map meta_duration (metadata playing))) = 16 / 5"
    unfolding n(2) m(2) by simp_all
  from C8_duration [OF c demo_promise n(1)]
  have "duration (dispatch demo_fetch demo_urls (LoadSettled 0) loading) =
          Num (Max (set (map buf_duration demo_buffers)))"
    and "reachable demo_urls playing \<and> metadata playing \<noteq> [] \<longrightarrow>
          duration playing = Num (Max (set (map meta_duration (metadata playing))))"
    by blast+
  with c demo_promise n m(1) reachable_playing show ?thesis
    unfolding x by blast
qed

lemma built_buffers:
  "map (\<lambda>i. buffer (source_nodes (built l bufs s) ! i)) (sources (built l bufs s)) = bufs"
  by (rule nth_equalityI) (simp_all add: built_def nth_append)

lemma settled_cases:
  assumes "k < length (pending s)"
  shows "case promise_all (map fetch_decode urls) of
           Inr audioBuffers \<Rightarrow>
             map (snd \<circ> fetch_decode) urls = map Inr audioBuffers \<and>
             length audioBuffers = length urls \<and>
             dispatch fetch_decode urls (LoadSettled k) s =
               (built (pending s ! k) audioBuffers (s\<lparr>pending := others k s\<rparr>))\<lparr>isLoading := False\<rparr> \<and>
             metadata (dispatch fetch_decode urls (LoadSettled k) s) = map meta_of audioBuffers \<and>
             map (\<lambda>i. buffer (source_nodes (dispatch fetch_decode urls (LoadSettled k) s) ! i))
                 (sources (dispatch fetch_decode urls (LoadSettled k) s)) = audioBuffers
         | Inl e \<Rightarrow>
             (\<exists>u \<in> set urls. snd (fetch_decode u) = Inl e) \<and>
             dispatch fetch_decode urls (LoadSettled k) s =
               s\<lparr>pending := others k s, console := console s @ [e]\<rparr> \<and>
             (isLoading s \<longrightarrow> \<not> enabled ClickPlay (dispatch fetch_decode urls (LoadSettled k) s))"
proof (cases "promise_all (map fetch_decode urls)")
  case (Inl e)
  from promise_all_Inl_D [OF Inl] obtain t where "(t, Inl e) \<in> set (map fetch_decode urls)"
    by blast
  then obtain u where "u \<in> set urls" "fetch_decode u = (t, Inl e)"
    by auto
  then have "\<exists>u \<in> set urls. snd (fetch_decode u) = Inl e"
    by (intro bexI [of _ u]) simp_all
  with Inl show ?thesis
    by (simp add: dispatch_LoadSettled initAudio_resumed_fail [OF assms])
next
  case (Inr bufs)
  let ?s' = "(built (pending s ! k) bufs (s\<lparr>pending := others k s\<rparr>))\<lparr>isLoading := False\<rparr>"
  have m: "map (snd \<circ> fetch_decode) urls = map Inr bufs"
    using promise_all_Inr_D [OF Inr] by simp
  have l: "length bufs = length urls"
    by (rule promise_all_length [OF Inr])
  have b: "map (\<lambda>i. buffer (source_nodes ?s' ! i)) (sources ?s') = bufs"
    using built_buffers [of "pending s ! k" bufs "s\<lparr>pending := others k s\<rparr>"] by simp
  have "metadata ?s' = map meta_of bufs"
    by (simp add: built_def)
  with m l b Inr show ?thesis
    by (simp add: dispatch_LoadSettled initAudio_resumed_ok [OF assms Inr])
qed

lemma reachable_whole_session:
  assumes "reachable urls s"
  shows "sources s = [] \<or> length (sources s) = length urls \<and> length (metadata s) = length urls"
  using reachable_whole [OF assms] reachable_graph_inv [OF assms] by (auto simp: graph_inv_def)

text \<open>
  As long as no load has succeeded, \<open>isLoading\<close> is still true and the Play button
  disabled.
\<close>

lemma run_draws_isLoading: "isLoading (run_draws k s) = isLoading s"
  by (induction k arbitrary: s) (auto simp: draw_def Let_def report_def split: option.splits)

lemma handler_isLoading: "isLoading (snd (handler ev s)) = isLoading s"
proof (cases ev)
  case ClickPlay
  then show ?thesis
    by (cases "forEach (node_start 0) (sources s) (source_nodes s)")
       (auto simp: handlePlay_def drawFrequencyData_def draw_def Let_def split: option.splits)
next
  case ClickStop
  then show ?thesis
    by (cases "forEach node_stop (sources s) (source_nodes s)")
       (auto simp: handleStop_def split: option.splits)
next
  case (SliderChange t)
  then show ?thesis
    by (cases "forEach (stop_then_start t) (sources s) (source_nodes s)")
       (simp add: handleSliderChange_def)
next
  case LoopToggle
  then show ?thesis by (simp add: handleLoopToggle_def)
next
  case (ClickMute i)
  then show ?thesis by (simp add: toggleMute_def Let_def)
next
  case (CompressorChange name v)
  then show ?thesis
    by (simp add: handleCompressorChange_def Let_def split: option.splits prod.splits)
next
  case (IntervalFired now)
  then show ?thesis by simp
next
  case AnimationFrame
  then show ?thesis by (simp add: run_draws_isLoading)
next
  case (LoadSettled k)
  then show ?thesis by simp
qed

lemma isLoading_report: "isLoading (report e s) = isLoading s"
  by (cases e) simp_all

lemma unloaded_dispatch:
  assumes "urls \<noteq> []" "audioContext s \<noteq> None \<and> sources s = [] \<longrightarrow> isLoading s"
    "audioContext (dispatch fd urls ev s) \<noteq> None" "sources (dispatch fd urls ev s) = []"
  shows "isLoading (dispatch fd urls ev s)"
proof (cases "\<exists>k. ev = LoadSettled k")
  case True
  then obtain k where ev: "ev = LoadSettled k" by blast
  show ?thesis
  proof (cases "k < length (pending s)")
    case False
    with assms(2,3,4) show ?thesis
      by (simp add: ev dispatch_LoadSettled initAudio_resumed_none)
  next
    case k: True
    show ?thesis
    proof (cases "promise_all (map fd urls)")
      case (Inl e)
      with assms(2,3,4) show ?thesis
        by (simp add: ev dispatch_LoadSettled initAudio_resumed_fail [OF k])
    next
      case (Inr bufs)
      with assms(1,4) promise_all_length [OF Inr] show ?thesis
        by (simp add: ev dispatch_LoadSettled initAudio_resumed_ok [OF k] built_def)
    qed
  qed
next
  case False
  then have l: "\<forall>k. ev \<noteq> LoadSettled k" by simp
  let ?s' = "report (fst (handler ev s)) (snd (handler ev s))"
  have h: "sources ?s' = sources s" "isLoading ?s' = isLoading s"
    by (simp_all add: sources_report handler_sources isLoading_report handler_isLoading)
  show ?thesis
  proof (cases "audioContext ?s' \<noteq> audioContext s \<or> loop ?s' \<noteq> loop s")
    case True
    with assms(3) show ?thesis
      by (auto simp: dispatch_handler [OF l] useEffect_def initAudio_def split: option.splits)
  next
    case False
    with assms(2,3,4) h show ?thesis
      by (simp add: dispatch_handler [OF l] useEffect_def)
  qed
qed

lemma reachable_unloaded:
  "reachable urls s \<Longrightarrow> urls \<noteq> [] \<Longrightarrow> audioContext s \<noteq> None \<Longrightarrow> sources s = [] \<Longrightarrow> isLoading s"
proof (induction rule: reachable.induct)
  case reachable_initial
  then show ?case by (simp add: initial_def)
next
  case (reachable_dispatch s ev fd)
  then show ?case using unloaded_dispatch [of urls s fd ev] by blast
qed

lemma failing_promise: "promise_all (map failing_fetch demo_urls) = Inl (LoadError ''percs.wav'')"
  by (simp add: promise_all_def failing_fetch_def demo_fetch_def demo_urls_def)

text \<open>
  Claim C4. When a load in flight settles, \<open>Promise.all\<close> over the urls has either
  yielded the decoded buffers in the order of the urls (the \<open>i\<close>-th buffer is the one
  loaded from the \<open>i\<close>-th url), and then the playback nodes and the metadata follow that
  order and \<open>isLoading\<close> ends; or a load was rejected, and then nothing of a session is
  stored: the state is the one before except that the load is no longer in flight and
  the rejection is on the console, and the Play button is still disabled if it was. In
  every reachable state the session has either no track or one playback node and one
  metadata entry per url, and as long as it has no track (no load has succeeded) the
  Play button is disabled.
\<close>

theorem C4_loadAll:
  assumes "k < length (pending s)"
  shows "(case promise_all (map fetch_decode urls) of
            Inr audioBuffers \<Rightarrow>
              map (snd \<circ> fetch_decode) urls = map Inr audioBuffers \<and>
              length audioBuffers = length urls \<and>
              dispatch fetch_decode urls (LoadSettled k) s =
                (built (pending s ! k) audioBuffers (s\<lparr>pending := others k s\<rparr>))\<lparr>isLoading := False\<rparr> \<and>
              metadata (dispatch fetch_decode urls (LoadSettled k) s) = map meta_of audioBuffers \<and>
              map (\<lambda>i. buffer (source_nodes (dispatch fetch_decode urls (LoadSettled k) s) ! i))
                  (sources (dispatch fetch_decode urls (LoadSettled k) s)) = audioBuffers
          | Inl e \<Rightarrow>
              (\<exists>u \<in> set urls. snd (fetch_decode u) = Inl e) \<and>
              dispatch fetch_decode urls (LoadSettled k) s =
                s\<lparr>pending := others k s, console := console s @ [e]\<rparr> \<and>
              (isLoading s \<longrightarrow> \<not> enabled ClickPlay (dispatch fetch_decode urls (LoadSettled k) s))) \<and>
         (\<forall>s'. reachable urls s' \<longrightarrow>
            (sources s' = [] \<or>
             length (sources s') = length urls \<and> length (metadata s') = length urls) \<and>
            (urls \<noteq> [] \<and> audioContext s' \<noteq> None \<and> sources s' = [] \<longrightarrow> \<not> enabled ClickPlay s'))"
proof -
  have "\<forall>s'. reachable urls s' \<longrightarrow>
      (urls \<noteq> [] \<and> audioContext s' \<noteq> None \<and> sources s' = [] \<longrightarrow> \<not> enabled ClickPlay s')"
    using reachable_unloaded [of urls] by auto
  with settled_cases [OF assms, where fetch_decode = fetch_decode and urls = urls]
    reachable_whole_session [of urls]
  show ?thesis by blast
qed

theorem C4_loadAll_witness:
  "0 < length (pending loading) \<and>
   map (snd \<circ> demo_fetch) demo_urls = map Inr demo_buffers \<and>
   metadata (dispatch demo_fetch demo_urls (LoadSettled 0) loading) = map meta_of demo_buffers \<and>
   dispatch failing_fetch demo_urls (LoadSettled 0) loading =
     initial\<lparr>audioContext := Some AudioContext, isLoading := True,
             console := [LoadError ''percs.wav'']\<rparr> \<and>
   \<not> enabled ClickPlay (dispatch failing_fetch demo_urls (LoadSettled 0) loading) \<and>
   reachable demo_urls playing \<and> length (sources playing) = length demo_urls"
proof -
  have c: "0 < length (pending loading)" "isLoading loading"
    by (simp_all add: loading_eq)
  have e: "loading\<lparr>pending := others 0 loading, console := console loading @ [LoadError ''percs.wav'']\<rparr> =
      initial\<lparr>audioContext := Some AudioContext, isLoading := True,
              console := [LoadError ''percs.wav'']\<rparr>"
    by (simp add: loading_eq others_def initial_def)
  have n: "sources playing \<noteq> []"
    by (simp add: playing_eq loaded_eq)
  have ok: "map (snd \<circ> demo_fetch) demo_urls = map Inr demo_buffers \<and>
     metadata (dispatch demo_fetch demo_urls (LoadSettled 0) loading) = map meta_of demo_buffers"
    and whole: "reachable demo_urls playing \<longrightarrow>
       sources playing = [] \<or> length (sources playing) = length demo_urls \<and>
       length (metadata playing) = length demo_urls"
    using C4_loadAll [OF c(1), where fetch_decode = demo_fetch and urls = demo_urls]
    unfolding demo_promise sum.case by blast+
  have bad: "dispatch failing_fetch demo_urls (LoadSettled 0) loading =
       loading\<lparr>pending := others 0 loading, console := console loading @ [LoadError ''percs.wav'']\<rparr> \<and>
     (isLoading loading \<longrightarrow>
        \<not> enabled ClickPlay (dispatch failing_fetch demo_urls (LoadSettled 0) loading))"
    using C4_loadAll [OF c(1), where fetch_decode = failing_fetch and urls = demo_urls]
    unfolding failing_promise sum.case by blast
  from whole n reachable_playing have "length (sources playing) = length demo_urls"
    by blast
  with ok bad c reachable_playing show ?thesis
    unfolding e by blast
qed

subsection \<open>Claims about the first and the second Play\<close>

lemma forEach_start:
  "distinct ids \<Longrightarrow> \<forall>i \<in> set ids. i < length h \<and> status (h ! i) = Unstarted \<Longrightarrow>
   fst (forEach (node_start t) ids h) = None \<and>
   length (snd (forEach (node_start t) ids h)) = length h \<and>
   (\<forall>i \<in> set ids. status (snd (forEach (node_start t) ids h) ! i) = Started t) \<and>
   (\<forall>j. j \<notin> set ids \<longrightarrow> snd (forEach (node_start t) ids h) ! j = h ! j)"
proof (induction ids arbitrary: h)
  case Nil
  then show ?case by simp
next
  case (Cons i rest)
  let ?h = "h[i := (h ! i)\<lparr>status := Started t\<rparr>]"
  from Cons.prems have i: "i < length h" "status (h ! i) = Unstarted" "i \<notin> set rest" "distinct rest"
    by simp_all
  have step: "forEach (node_start t) (i # rest) h = forEach (node_start t) rest ?h"
    using i by (simp add: node_start_def)
  have "\<forall>j \<in> set rest. j < length ?h \<and> status (?h ! j) = Unstarted"
    using Cons.prems i by (auto simp: nth_list_update)
  from Cons.IH [OF i(4) this]
  have ih: "fst (forEach (node_start t) rest ?h) = None"
    "length (snd (forEach (node_start t) rest ?h)) = length h"
    "\<forall>j \<in> set rest. status (snd (forEach (node_start t) rest ?h) ! j) = Started t"
    "\<forall>j. j \<notin> set rest \<longrightarrow> snd (forEach (node_start t) rest ?h) ! j = ?h ! j"
    by simp_all
  from ih(4) i have "status (snd (forEach (node_start t) rest ?h) ! i) = Started t"
    by simp
  moreover from ih(4) have "\<forall>j. j \<notin> set (i # rest) \<longrightarrow> snd (forEach (node_start t) rest ?h) ! j = h ! j"
    by simp
  ultimately show ?case
    unfolding step using ih(1,2,3) by simp
qed

lemma fresh_inv_initial: "fresh_inv initial"
  by (simp add: fresh_inv_def initial_def)

lemma initAudio_resumed_frame:
  "audioContext (initAudio_resumed fd urls k s) = audioContext s \<and>
   loop (initAudio_resumed fd urls k s) = loop s \<and>
   isPlaying (initAudio_resumed fd urls k s) = isPlaying s \<and>
   intervals (initAudio_resumed fd urls k s) = intervals s \<and>
   frameRequests (initAudio_resumed fd urls k s) = frameRequests s \<and>
   currentTime (initAudio_resumed fd urls k s) = currentTime s \<and>
   compressionParams (initAudio_resumed fd urls k s) = compressionParams s"
  by (simp add: initAudio_resumed_def setupAudio_def setupAudio_decoded_def
      updateCompressorParams_def Let_def split: sum.splits)

lemma fresh_inv_dispatch:
  assumes "fresh_inv s"
  shows "fresh_inv (dispatch fd urls ev s)"
proof (cases "audioContext s")
  case (Some c)
  have "audioContext (dispatch fd urls ev s) = Some c"
  proof (cases ev)
    case ClickPlay
    with Some handlePlay_context [OF Some] show ?thesis
      by (simp add: dispatch_ClickPlay_context report_frame)
  next
    case LoopToggle
    with Some show ?thesis by (simp add: dispatch_LoopToggle initAudio_def)
  next
    case (LoadSettled k)
    with Some show ?thesis by (simp add: dispatch_LoadSettled initAudio_resumed_frame)
  next
    case ClickStop
    with Some handler_frame [of ev s] show ?thesis by (simp add: dispatch_other report_frame)
  next
    case (SliderChange t)
    with Some handler_frame [of ev s] show ?thesis by (simp add: dispatch_other report_frame)
  next
    case (ClickMute i)
    with Some handler_frame [of ev s] show ?thesis by (simp add: dispatch_other report_frame)
  next
    case (CompressorChange name v)
    with Some handler_frame [of ev s] show ?thesis by (simp add: dispatch_other report_frame)
  next
    case (IntervalFired now)
    with Some handler_frame [of ev s] show ?thesis by (simp add: dispatch_other report_frame)
  next
    case AnimationFrame
    with Some handler_frame [of ev s] show ?thesis by (simp add: dispatch_other report_frame)
  qed
  then show ?thesis by (simp add: fresh_inv_def)
next
  case None
  with assms have f: "\<not> isPlaying s" "sources s = []" "source_nodes s = []" "intervals s = []"
    "frameRequests s = []" "compressorRef s = None" "pending s = []"
    by (simp_all add: fresh_inv_def)
  show ?thesis
  proof (cases ev)
    case ClickPlay
    then show ?thesis
      by (simp add: dispatch_ClickPlay_fresh [OF None] fresh_inv_def initAudio_def)
  next
    case LoopToggle
    then show ?thesis using None f by (simp add: dispatch_LoopToggle fresh_inv_def)
  next
    case ClickStop
    then show ?thesis using None f by (simp add: dispatch_other fresh_inv_def handleStop_def)
  next
    case (SliderChange t)
    then show ?thesis using None f by (simp add: dispatch_other fresh_inv_def handleSliderChange_def)
  next
    case (ClickMute i)
    then show ?thesis using None f
      by (simp add: dispatch_other fresh_inv_def toggleMute_def Let_def report_def)
  next
    case (CompressorChange name v)
    then show ?thesis using None f
      by (simp add: dispatch_other fresh_inv_def handleCompressorChange_def Let_def)
  next
    case (IntervalFired now)
    then show ?thesis using None f by (simp add: dispatch_other fresh_inv_def)
  next
    case AnimationFrame
    then show ?thesis using None f by (simp add: dispatch_other fresh_inv_def)
  next
    case (LoadSettled k)
    then show ?thesis using None f assms
      by (simp add: dispatch_LoadSettled initAudio_resumed_none)
  qed
qed

lemma reachable_fresh_inv: "reachable urls s \<Longrightarrow> fresh_inv s"
  by (induction rule: reachable.induct) (simp_all add: fresh_inv_initial fresh_inv_dispatch)

lemma built_sources_unstarted:
  "\<forall>i \<in> set (sources (built l bufs s)).
     i < length (source_nodes (built l bufs s)) \<and>
     status (source_nodes (built l bufs s) ! i) = Unstarted \<and>
     node_loop (source_nodes (built l bufs s) ! i) = load_loop l"
  by (auto simp: built_def nth_append)

lemma handlePlay_starts:
  assumes "audioContext s = Some c" "sources s \<noteq> []" "distinct (sources s)"
    "\<forall>i \<in> set (sources s). i < length (source_nodes s) \<and> status (source_nodes s ! i) = Unstarted"
    "analyserRef s = Some a"
  shows "fst (handlePlay s) = None \<and> isPlaying (snd (handlePlay s)) \<and>
         sources (snd (handlePlay s)) = sources s \<and>
         (\<forall>i \<in> set (sources s). status (source_nodes (snd (handlePlay s)) ! i) = Started 0) \<and>
         intervals (snd (handlePlay s)) = intervals s @ [Suc (nextHandle s)] \<and>
         frameRequests (snd (handlePlay s)) = frameRequests s @ [nextHandle s]"
proof -
  obtain e h where f: "forEach (node_start 0) (sources s) (source_nodes s) = (e, h)"
    by (cases "forEach (node_start 0) (sources s) (source_nodes s)")
  from forEach_start [OF assms(3,4), of 0] f
  have "e = None" "\<forall>i \<in> set (sources s). status (h ! i) = Started 0"
    by simp_all
  then show ?thesis
    using assms(1,2,5) f by (simp add: handlePlay_def drawFrequencyData_def draw_def Let_def)
qed

lemma isPlaying_run_draws: "isPlaying (run_draws k s) = isPlaying s"
  by (induction k arbitrary: s) (auto simp: draw_def Let_def report_def split: option.splits)

lemma isPlaying_report: "isPlaying (report e s) = isPlaying s"
  by (cases e) simp_all

lemma isPlaying_only_by_play:
  assumes "isPlaying (dispatch fd urls ev s)" "\<not> isPlaying s"
  shows "ev = ClickPlay \<and> audioContext s \<noteq> None \<and> sources s \<noteq> []"
proof (cases ev)
  case ClickPlay
  show ?thesis
  proof (cases "audioContext s")
    case None
    with assms show ?thesis
      by (simp add: ClickPlay dispatch_ClickPlay_fresh initAudio_def)
  next
    case (Some c)
    with assms show ?thesis
      by (auto simp: ClickPlay dispatch_ClickPlay_context isPlaying_report handlePlay_def
          split: prod.splits option.splits if_splits)
  qed
next
  case LoopToggle
  with assms show ?thesis
    by (simp add: dispatch_LoopToggle initAudio_def split: option.splits)
next
  case ClickStop
  with assms show ?thesis
    by (auto simp: dispatch_other isPlaying_report handleStop_def split: prod.splits option.splits if_splits)
next
  case (SliderChange t)
  with assms show ?thesis
    by (auto simp: dispatch_other isPlaying_report handleSliderChange_def split: prod.splits)
next
  case (ClickMute i)
  with assms show ?thesis
    by (auto simp: dispatch_other isPlaying_report toggleMute_def Let_def split: if_splits)
next
  case (CompressorChange name v)
  with assms show ?thesis
    by (auto simp: dispatch_other isPlaying_report handleCompressorChange_def Let_def
        split: prod.splits option.splits)
next
  case (IntervalFired now)
  with assms show ?thesis by (simp add: dispatch_other)
next
  case AnimationFrame
  with assms show ?thesis by (simp add: dispatch_other isPlaying_run_draws)
next
  case (LoadSettled k)
  with assms show ?thesis by (simp add: dispatch_LoadSettled initAudio_resumed_frame)
qed

lemma settled_unstarted:
  assumes "source_nodes s = []"
  shows "\<forall>n \<in> set (source_nodes (initAudio_resumed fd urls k s)). status n = Unstarted"
  by (rule initAudio_resumed_cases
        [where P = "\<lambda>x. \<forall>n \<in> set (source_nodes x). status n = Unstarted"])
     (auto simp: assms built_def)

lemma play_after_load:
  assumes "k < length (pending s)" "audioContext s = Some c"
    "promise_all (map fd urls) = Inr bufs" "bufs \<noteq> []"
  shows "isPlaying (dispatch fd' urls ClickPlay (dispatch fd urls (LoadSettled k) s)) \<and>
         sources (dispatch fd' urls ClickPlay (dispatch fd urls (LoadSettled k) s)) =
           sources (dispatch fd urls (LoadSettled k) s) \<and>
         (\<forall>i \<in> set (sources (dispatch fd urls (LoadSettled k) s)).
            status (source_nodes (dispatch fd' urls ClickPlay (dispatch fd urls (LoadSettled k) s)) ! i) =
              Started 0) \<and>
         intervals (dispatch fd' urls ClickPlay (dispatch fd urls (LoadSettled k) s)) \<noteq> [] \<and>
         frameRequests (dispatch fd' urls ClickPlay (dispatch fd urls (LoadSettled k) s)) \<noteq> []"
proof -
  let ?b = "built (pending s ! k) bufs (s\<lparr>pending := others k s\<rparr>)"
  let ?s1 = "?b\<lparr>isLoading := False\<rparr>"
  have s1: "dispatch fd urls (LoadSettled k) s = ?s1"
    by (simp add: dispatch_LoadSettled initAudio_resumed_ok [OF assms(1,3)])
  have c: "audioContext ?s1 = Some c" using assms(2) by (simp add: built_def)
  have n: "sources ?s1 \<noteq> []" using assms(4) by (simp add: built_def)
  have d: "distinct (sources ?s1)" by (simp add: built_def)
  have u: "\<forall>i \<in> set (sources ?s1). i < length (source_nodes ?s1) \<and> status (source_nodes ?s1 ! i) = Unstarted"
    using built_sources_unstarted [of "pending s ! k" bufs "s\<lparr>pending := others k s\<rparr>"] by simp
  have a: "analyserRef ?s1 = Some (length (analyser_nodes s))" by (simp add: built_def)
  from handlePlay_starts [OF c n d u a] show ?thesis
    unfolding s1 by (simp add: dispatch_ClickPlay_context [OF c])
qed

text \<open>
  Claim C10. In a reachable session without an audio context, \<open>handlePlay\<close> only stores
  a new context, and the render that follows runs the effect, which puts a load in
  flight and sets \<open>isLoading\<close>. After this first Play nothing plays: \<open>isPlaying\<close> is
  false, no interval and no animation frame is scheduled, no playback node is started,
  and while the load is in flight no command at all makes \<open>isPlaying\<close> true. When the
  load has settled still nothing plays, and no command other than Play makes
  \<open>isPlaying\<close> true; if the load succeeded with at least one track, that second Play
  starts every playback node at offset 0 and schedules both timers.
\<close>

theorem C10_first_play:
  assumes "reachable urls s" "audioContext s = None"
  shows "handlePlay s = (None, s\<lparr>audioContext := Some AudioContext\<rparr>) \<and>
         dispatch fd urls ClickPlay s =
           s\<lparr>audioContext := Some AudioContext, isLoading := True,
             pending := [\<lparr>load_context = AudioContext, load_loop = loop s,
                          load_params = compressionParams s\<rparr>]\<rparr> \<and>
         \<not> isPlaying (dispatch fd urls ClickPlay s) \<and>
         intervals (dispatch fd urls ClickPlay s) = [] \<and>
         frameRequests (dispatch fd urls ClickPlay s) = [] \<and>
         (\<forall>n \<in> set (source_nodes (dispatch fd urls ClickPlay s)). status n = Unstarted) \<and>
         (\<forall>fd' ev. \<not> isPlaying (dispatch fd' urls ev (dispatch fd urls ClickPlay s))) \<and>
         \<not> isPlaying (dispatch fd urls (LoadSettled 0) (dispatch fd urls ClickPlay s)) \<and>
         intervals (dispatch fd urls (LoadSettled 0) (dispatch fd urls ClickPlay s)) = [] \<and>
         frameRequests (dispatch fd urls (LoadSettled 0) (dispatch fd urls ClickPlay s)) = [] \<and>
         (\<forall>n \<in> set (source_nodes (dispatch fd urls (LoadSettled 0) (dispatch fd urls ClickPlay s))).
            status n = Unstarted) \<and>
         (\<forall>fd' ev. isPlaying (dispatch fd' urls ev
                        (dispatch fd urls (LoadSettled 0) (dispatch fd urls ClickPlay s))) \<longrightarrow>
            ev = ClickPlay) \<and>
         (\<forall>fd' bufs. promise_all (map fd urls) = Inr bufs \<and> bufs \<noteq> [] \<longrightarrow>
            isPlaying (dispatch fd' urls ClickPlay
              (dispatch fd urls (LoadSettled 0) (dispatch fd urls ClickPlay s))) \<and>
            (\<forall>i \<in> set (sources (dispatch fd urls (LoadSettled 0) (dispatch fd urls ClickPlay s))).
               status (source_nodes (dispatch fd' urls ClickPlay
                 (dispatch fd urls (LoadSettled 0) (dispatch fd urls ClickPlay s))) ! i) = Started 0) \<and>
            intervals (dispatch fd' urls ClickPlay
              (dispatch fd urls (LoadSettled 0) (dispatch fd urls ClickPlay s))) \<noteq> [] \<and>
            frameRequests (dispatch fd' urls ClickPlay
              (dispatch fd urls (LoadSettled 0) (dispatch fd urls ClickPlay s))) \<noteq> [])"
proof -
  let ?s1 = "s\<lparr>audioContext := Some AudioContext, isLoading := True,
             pending := [\<lparr>load_context = AudioContext, load_loop = loop s,
                          load_params = compressionParams s\<rparr>]\<rparr>"
  let ?s2 = "dispatch fd urls (LoadSettled 0) ?s1"
  from reachable_fresh_inv [OF assms(1)] assms(2)
  have f: "\<not> isPlaying s" "sources s = []" "source_nodes s = []" "intervals s = []"
    "frameRequests s = []" "pending s = []"
    by (simp_all add: fresh_inv_def)
  have d: "dispatch fd urls ClickPlay s = ?s1"
    by (simp add: dispatch_ClickPlay_fresh [OF assms(2)] initAudio_def f(6))
  have p1: "\<not> isPlaying ?s1" "intervals ?s1 = []" "frameRequests ?s1 = []"
    "\<forall>n \<in> set (source_nodes ?s1). status n = Unstarted" "sources ?s1 = []"
    using f by simp_all
  have r1: "\<forall>fd' ev. \<not> isPlaying (dispatch fd' urls ev ?s1)"
    using isPlaying_only_by_play [OF _ p1(1)] p1(5) by blast
  have k: "0 < length (pending ?s1)" "audioContext ?s1 = Some AudioContext" by simp_all
  have p2: "\<not> isPlaying ?s2" "intervals ?s2 = []" "frameRequests ?s2 = []"
    using f by (simp_all add: dispatch_LoadSettled initAudio_resumed_frame)
  have u2: "\<forall>n \<in> set (source_nodes ?s2). status n = Unstarted"
    unfolding dispatch_LoadSettled by (rule settled_unstarted) (simp add: f(3))
  have r2: "\<forall>fd' ev. isPlaying (dispatch fd' urls ev ?s2) \<longrightarrow> ev = ClickPlay"
    using isPlaying_only_by_play [OF _ p2(1)] by blast
  have g: "\<forall>fd' bufs. promise_all (map fd urls) = Inr bufs \<and> bufs \<noteq> [] \<longrightarrow>
            isPlaying (dispatch fd' urls ClickPlay ?s2) \<and>
            (\<forall>i \<in> set (sources ?s2).
               status (source_nodes (dispatch fd' urls ClickPlay ?s2) ! i) = Started 0) \<and>
            intervals (dispatch fd' urls ClickPlay ?s2) \<noteq> [] \<and>
            frameRequests (dispatch fd' urls ClickPlay ?s2) \<noteq> []"
    using play_after_load [OF k] by blast
  show ?thesis
    unfolding d
    by (intro conjI)
       (rule handlePlay_fresh [OF assms(2)] refl p1(1) p1(2) p1(3) p1(4) r1 p2(1) p2(2) p2(3) u2 r2 g)+
qed

theorem C10_first_play_witness:
  "reachable demo_urls initial \<and> audioContext initial = None \<and>
   promise_all (map demo_fetch demo_urls) = Inr demo_buffers \<and> demo_buffers \<noteq> [] \<and>
   \<not> isPlaying loading \<and> \<not> isPlaying loaded \<and> intervals loaded = [] \<and>
   frameRequests loaded = [] \<and> isPlaying playing"
proof -
  have a: "audioContext initial = None" by (simp add: initial_def)
  have n: "demo_buffers \<noteq> []" by (simp add: demo_buffers_def)
  note first = C10_first_play [OF reachable_initial a, where fd = demo_fetch and urls = demo_urls,
    THEN conjunct2, THEN conjunct2, folded loading_def loaded_def]
  from first
  have "\<not> isPlaying loading"
    and "\<not> isPlaying loaded \<and> intervals loaded = [] \<and> frameRequests loaded = []"
    and "promise_all (map demo_fetch demo_urls) = Inr demo_buffers \<and> demo_buffers \<noteq> [] \<longrightarrow> isPlaying playing"
    unfolding playing_def by blast+
  with reachable_initial a demo_promise n show ?thesis
    by blast
qed

subsection \<open>Stop on nodes that were started\<close>

text \<open>
  When every node the session refers to has been started, \<open>handleStop\<close> throws
  nothing, stops them all, clears \<open>isPlaying\<close>, resets \<open>currentTime\<close> and cancels the
  timers its two references hold.
\<close>

lemma node_stop_started:
  "status n \<noteq> Unstarted \<Longrightarrow> node_stop n = (None, n\<lparr>status := Stopped\<rparr>)"
  by (cases "status n") (simp_all add: node_stop_def)

lemma forEach_stop:
  "\<forall>i \<in> set ids. i < length h \<and> status (h ! i) \<noteq> Unstarted \<Longrightarrow>
   fst (forEach node_stop ids h) = None \<and>
   (\<forall>i \<in> set ids. status (snd (forEach node_stop ids h) ! i) = Stopped) \<and>
   (\<forall>k < length h. status (h ! k) = Stopped \<longrightarrow> status (snd (forEach node_stop ids h) ! k) = Stopped)"
proof (induction ids arbitrary: h)
  case Nil
  then show ?case by simp
next
  case (Cons i rest)
  let ?h = "h[i := (h ! i)\<lparr>status := Stopped\<rparr>]"
  from Cons.prems have i: "i < length h" "status (h ! i) \<noteq> Unstarted"
    by simp_all
  have step: "forEach node_stop (i # rest) h = forEach node_stop rest ?h"
    using i by (simp add: node_stop_started)
  have "\<forall>j \<in> set rest. j < length ?h \<and> status (?h ! j) \<noteq> Unstarted"
    using Cons.prems by (auto simp: nth_list_update)
  from Cons.IH [OF this]
  have ih: "fst (forEach node_stop rest ?h) = None"
    "\<forall>j \<in> set rest. status (snd (forEach node_stop rest ?h) ! j) = Stopped"
    "\<forall>k < length ?h. status (?h ! k) = Stopped \<longrightarrow> status (snd (forEach node_stop rest ?h) ! k) = Stopped"
    by simp_all
  from ih(3) i(1) have "status (snd (forEach node_stop rest ?h) ! i) = Stopped"
    by simp
  moreover have "\<forall>k < length h. status (h ! k) = Stopped \<longrightarrow> status (snd (forEach node_stop rest ?h) ! k) = Stopped"
  proof (intro allI impI)
    fix k assume k: "k < length h" "status (h ! k) = Stopped"
    with i(1) have "status (?h ! k) = Stopped" by (cases "k = i") simp_all
    with ih(3) k(1) show "status (snd (forEach node_stop rest ?h) ! k) = Stopped" by simp
  qed
  ultimately show ?case
    unfolding step using ih(1,2) by simp
qed

lemma handleStop_stops:
  assumes "sources s \<noteq> []"
    "\<forall>i \<in> set (sources s). i < length (source_nodes s) \<and> status (source_nodes s ! i) \<noteq> Unstarted"
  shows "fst (handleStop s) = None \<and> \<not> isPlaying (snd (handleStop s)) \<and>
         currentTime (snd (handleStop s)) = 0 \<and>
         (\<forall>i \<in> set (sources s). status (source_nodes (snd (handleStop s)) ! i) = Stopped) \<and>
         intervals (snd (handleStop s)) = cancel (intervalRef s) (intervals s) \<and>
         frameRequests (snd (handleStop s)) = cancel (animationFrameRef s) (frameRequests s)"
proof -
  obtain e h where f: "forEach node_stop (sources s) (source_nodes s) = (e, h)"
    by (cases "forEach node_stop (sources s) (source_nodes s)")
  from forEach_stop [OF assms(2)] f
  have "e = None" "\<forall>i \<in> set (sources s). status (h ! i) = Stopped"
    by simp_all
  then show ?thesis
    using assms(1) f by (simp add: handleStop_def)
qed

subsection \<open>Claims about the compressor parameters\<close>












subsection \<open>The three-track session, continued\<close>

lemma ticked_eq: "ticked = playing\<lparr>currentTime := 3 / 2\<rparr>"
  unfolding ticked_def by (simp add: dispatch_other)

lemma upt_3_6: "[3 ..< 6] = [3, 4, 5]"
  by (simp add: upt_rec)

lemma toggling_eq:
  "toggling = ticked\<lparr>loop := True, isLoading := True, pending := [demo_load True]\<rparr>"
  unfolding toggling_def
  by (simp add: dispatch_LoopToggle ticked_eq playing_eq loaded_eq initial_def initAudio_def
      demo_load_def)

lemma toggled_eq:
  "toggled = ticked
     \<lparr>loop := True,
      gain_nodes := replicate 3 \<lparr>gain_value = 1, gain_output = Some 0\<rparr> @
                    replicate 3 \<lparr>gain_value = 1, gain_output = Some 1\<rparr>,
      source_nodes := [demo_node 3 False 0 (Started 0), demo_node (5 / 2) False 1 (Started 0),
                       demo_node (16 / 5) False 2 (Started 0),
                       demo_node 3 True 3 Unstarted, demo_node (5 / 2) True 4 Unstarted,
                       demo_node (16 / 5) True 5 Unstarted],
      analyser_nodes := [\<lparr>fftSize = 256, to_destination = True\<rparr>,
                         \<lparr>fftSize = 256, to_destination = True\<rparr>],
      compressor_nodes := [\<lparr>programmed = default_params, comp_output = Some 0\<rparr>,
                           \<lparr>programmed = default_params, comp_output = Some 1\<rparr>],
      gainNodes := [3, 4, 5], sources := [3, 4, 5],
      analyserRef := Some 1, compressorRef := Some 1\<rparr>"
proof -
  have p: "0 < length (pending toggling)" by (simp add: toggling_eq)
  show ?thesis
    unfolding toggled_def dispatch_LoadSettled initAudio_resumed_ok [OF p demo_promise]
    by (simp add: toggling_eq ticked_eq playing_eq loaded_eq initial_def built_def others_def
        demo_load_def demo_buffers_def demo_node_def upt_3_6 numeral_3_eq_3 Math_max_Cons)
qed

lemma stop_after_toggle_eq:
  "stop_after_toggle = toggled\<lparr>console := [InvalidStateError]\<rparr>"
  unfolding stop_after_toggle_def
  by (simp add: dispatch_other toggled_eq ticked_eq playing_eq loaded_eq initial_def
      handleStop_def node_stop_def demo_node_def)

lemma seeked_eq:
  "seeked = playing
     \<lparr>currentTime := 1,
      source_nodes := [demo_node 3 False 0 Stopped, demo_node (5 / 2) False 1 (Started 0),
                       demo_node (16 / 5) False 2 (Started 0)],
      console := [InvalidStateError]\<rparr>"
  unfolding seeked_def
  by (simp add: dispatch_other playing_eq loaded_eq initial_def handleSliderChange_def
      stop_then_start_def node_stop_def node_start_def demo_node_def)

lemma stopped_eq:
  "stopped = playing
     \<lparr>source_nodes := [demo_node 3 False 0 Stopped, demo_node (5 / 2) False 1 Stopped,
                       demo_node (16 / 5) False 2 Stopped],
      isPlaying := False, intervals := [], frameRequests := [], currentTime := 0\<rparr>"
  unfolding stopped_def
  by (simp add: dispatch_other playing_eq loaded_eq initial_def handleStop_def node_stop_def
      demo_node_def cancel_def)

lemma replayed_eq: "replayed = stopped\<lparr>console := [InvalidStateError]\<rparr>"
  unfolding replayed_def
  by (simp add: dispatch_ClickPlay_context [where c = AudioContext] stopped_eq playing_eq
      loaded_eq initial_def handlePlay_def node_start_def demo_node_def)

text \<open>
  Two loads that overlap. After the first click on Play and a loop toggle, the load
  with \<open>loop = false\<close> and the load with \<open>loop = true\<close> are both in flight. The second
  settles first and builds nodes 0, 1, 2; then the first settles and builds nodes 3, 4,
  5, which become the session's: the flag is true and the session's nodes do not loop.
\<close>

lemma overlapping_eq:
  "overlapping = loading\<lparr>loop := True, pending := [demo_load False, demo_load True]\<rparr>"
  unfolding overlapping_def
  by (simp add: dispatch_LoopToggle loading_eq initial_def initAudio_def demo_load_def)

lemma overlapped_loop:
  "loop overlapped \<and> pending overlapped = [] \<and> sources overlapped = [3, 4, 5] \<and>
   map node_loop (source_nodes overlapped) = [True, True, True, False, False, False]"
proof -
  let ?s1 = "initAudio_resumed demo_fetch demo_urls 1 overlapping"
  have o: "overlapped = initAudio_resumed demo_fetch demo_urls 0 ?s1"
    unfolding overlapped_def dispatch_LoadSettled ..
  have p1: "1 < length (pending overlapping)" by (simp add: overlapping_eq)
  have s1: "?s1 = (built (demo_load True) demo_buffers
                     (overlapping\<lparr>pending := [demo_load False]\<rparr>))\<lparr>isLoading := False\<rparr>"
    unfolding initAudio_resumed_ok [OF p1 demo_promise]
    by (simp add: overlapping_eq others_def)
  have p0: "0 < length (pending ?s1)" unfolding s1 by (simp add: built_def)
  show ?thesis
    unfolding o initAudio_resumed_ok [OF p0 demo_promise]
    unfolding s1
    by (simp add: overlapping_eq loading_eq initial_def built_def others_def demo_load_def
        demo_buffers_def upt_3 upt_3_6 numeral_3_eq_3)
qed

subsection \<open>Claims about the loop toggle\<close>

lemma settled_nodes:
  "take (length (source_nodes s)) (source_nodes (initAudio_resumed fd urls k s)) = source_nodes s"
  by (rule initAudio_resumed_cases
        [where P = "\<lambda>x. take (length (source_nodes s)) (source_nodes x) = source_nodes s"])
     (simp_all add: built_def)

text \<open>
  Against claim C6 as stated: the loop flag is toggled while the three tracks play,
  and the load this starts settles; no play and no seek has happened since the toggle.
  The session referred to nodes 0, 1, 2 (started); now it refers to nodes 3, 4, 5,
  which are new, unstarted and carry the new loop value, and \<open>isPlaying\<close> is still
  true.
\<close>

theorem C6_counterexample:
  "isPlaying ticked \<and> sources ticked = [0, 1, 2] \<and> \<not> loop ticked \<and>
   sources (dispatch demo_fetch demo_urls (LoadSettled 0)
     (dispatch demo_fetch demo_urls LoopToggle ticked)) = [3, 4, 5] \<and>
   status (source_nodes (dispatch demo_fetch demo_urls (LoadSettled 0)
     (dispatch demo_fetch demo_urls LoopToggle ticked)) ! 3) = Unstarted \<and>
   node_loop (source_nodes (dispatch demo_fetch demo_urls (LoadSettled 0)
     (dispatch demo_fetch demo_urls LoopToggle ticked)) ! 3) = True \<and>
   isPlaying (dispatch demo_fetch demo_urls (LoadSettled 0)
     (dispatch demo_fetch demo_urls LoopToggle ticked))"
  unfolding toggling_def [symmetric] toggled_def [symmetric]
  by (simp add: toggled_eq ticked_eq playing_eq loaded_eq initial_def demo_node_def)

text \<open>
  Claim C6, amended. Toggling the loop flag flips \<open>loop\<close> and, in that step, changes
  neither \<open>isPlaying\<close> nor the session's playback nodes nor any playback node that
  exists.
  Without a context nothing else happens. With a context the effect runs again, since
  \<open>loop\<close> is one of its dependencies: \<open>isLoading\<close> becomes true and a load is in flight
  that remembers the new loop value. Whenever a load in flight settles, before or
  after later commands and in any order among the loads in flight, \<open>isPlaying\<close>, the
  \<open>loop\<close> flag and every playback node that exists stay as they are; if the load
  was rejected
  the session's playback nodes stay too; if it succeeded they are replaced by new,
  unstarted nodes that carry the loop value that load remembers. So the new value
  takes effect on nodes created when the load of the toggle settles, not at the next
  play or seek, and the session's nodes carry the value of the load that settled last.
\<close>

theorem C6_loop_toggle:
  "dispatch fd urls LoopToggle s =
     (case audioContext s of
        None \<Rightarrow> s\<lparr>loop := \<not> loop s\<rparr>
      | Some c \<Rightarrow>
          s\<lparr>loop := \<not> loop s, isLoading := True,
            pending := pending s @
              [\<lparr>load_context = c, load_loop = \<not> loop s, load_params = compressionParams s\<rparr>]\<rparr>) \<and>
   isPlaying (dispatch fd urls LoopToggle s) = isPlaying s \<and>
   sources (dispatch fd urls LoopToggle s) = sources s \<and>
   source_nodes (dispatch fd urls LoopToggle s) = source_nodes s \<and>
   (\<forall>k < length (pending s).
      isPlaying (dispatch fd urls (LoadSettled k) s) = isPlaying s \<and>
      loop (dispatch fd urls (LoadSettled k) s) = loop s \<and>
      take (length (source_nodes s)) (source_nodes (dispatch fd urls (LoadSettled k) s)) =
        source_nodes s \<and>
      (case promise_all (map fd urls) of
         Inl e \<Rightarrow>
           sources (dispatch fd urls (LoadSettled k) s) = sources s \<and>
           source_nodes (dispatch fd urls (LoadSettled k) s) = source_nodes s
       | Inr bufs \<Rightarrow>
           sources (dispatch fd urls (LoadSettled k) s) =
             [length (source_nodes s) ..< length (source_nodes s) + length bufs] \<and>
           (\<forall>i \<in> set (sources (dispatch fd urls (LoadSettled k) s)).
              status (source_nodes (dispatch fd urls (LoadSettled k) s) ! i) = Unstarted \<and>
              node_loop (source_nodes (dispatch fd urls (LoadSettled k) s) ! i) =
                load_loop (pending s ! k))))"
proof -
  have toggle: "dispatch fd urls LoopToggle s =
     (case audioContext s of
        None \<Rightarrow> s\<lparr>loop := \<not> loop s\<rparr>
      | Some c \<Rightarrow>
          s\<lparr>loop := \<not> loop s, isLoading := True,
            pending := pending s @
              [\<lparr>load_context = c, load_loop = \<not> loop s, load_params = compressionParams s\<rparr>]\<rparr>)"
    by (simp add: dispatch_LoopToggle initAudio_def split: option.splits)
  have frame: "isPlaying (dispatch fd urls LoopToggle s) = isPlaying s"
    "sources (dispatch fd urls LoopToggle s) = sources s"
    "source_nodes (dispatch fd urls LoopToggle s) = source_nodes s"
    unfolding toggle by (simp_all split: option.splits)
  have settle: "\<forall>k < length (pending s).
      isPlaying (dispatch fd urls (LoadSettled k) s) = isPlaying s \<and>
      loop (dispatch fd urls (LoadSettled k) s) = loop s \<and>
      take (length (source_nodes s)) (source_nodes (dispatch fd urls (LoadSettled k) s)) =
        source_nodes s \<and>
      (case promise_all (map fd urls) of
         Inl e \<Rightarrow>
           sources (dispatch fd urls (LoadSettled k) s) = sources s \<and>
           source_nodes (dispatch fd urls (LoadSettled k) s) = source_nodes s
       | Inr bufs \<Rightarrow>
           sources (dispatch fd urls (LoadSettled k) s) =
             [length (source_nodes s) ..< length (source_nodes s) + length bufs] \<and>
           (\<forall>i \<in> set (sources (dispatch fd urls (LoadSettled k) s)).
              status (source_nodes (dispatch fd urls (LoadSettled k) s) ! i) = Unstarted \<and>
              node_loop (source_nodes (dispatch fd urls (LoadSettled k) s) ! i) =
                load_loop (pending s ! k)))"
  proof (intro allI impI)
    fix k assume k: "k < length (pending s)"
    let ?s' = "dispatch fd urls (LoadSettled k) s"
    have f: "isPlaying ?s' = isPlaying s" "loop ?s' = loop s"
      "take (length (source_nodes s)) (source_nodes ?s') = source_nodes s"
      by (simp_all add: dispatch_LoadSettled initAudio_resumed_frame settled_nodes)
    have "case promise_all (map fd urls) of
         Inl e \<Rightarrow> sources ?s' = sources s \<and> source_nodes ?s' = source_nodes s
       | Inr bufs \<Rightarrow>
           sources ?s' = [length (source_nodes s) ..< length (source_nodes s) + length bufs] \<and>
           (\<forall>i \<in> set (sources ?s').
              status (source_nodes ?s' ! i) = Unstarted \<and>
              node_loop (source_nodes ?s' ! i) = load_loop (pending s ! k))"
    proof (cases "promise_all (map fd urls)")
      case (Inl e)
      then show ?thesis
        by (simp add: dispatch_LoadSettled initAudio_resumed_fail [OF k])
    next
      case (Inr bufs)
      let ?b = "built (pending s ! k) bufs (s\<lparr>pending := others k s\<rparr>)"
      have d: "?s' = ?b\<lparr>isLoading := False\<rparr>"
        by (simp add: dispatch_LoadSettled initAudio_resumed_ok [OF k Inr])
      have "\<forall>i \<in> set (sources ?b).
              status (source_nodes ?b ! i) = Unstarted \<and>
              node_loop (source_nodes ?b ! i) = load_loop (pending s ! k)"
        using built_sources_unstarted [of "pending s ! k" bufs "s\<lparr>pending := others k s\<rparr>"]
        by simp
      moreover have
        "sources ?b = [length (source_nodes s) ..< length (source_nodes s) + length bufs]"
        by (simp add: built_def)
      ultimately show ?thesis
        unfolding d using Inr by simp
    qed
    with f show "isPlaying ?s' = isPlaying s \<and> loop ?s' = loop s \<and>
      take (length (source_nodes s)) (source_nodes ?s') = source_nodes s \<and>
      (case promise_all (map fd urls) of
         Inl e \<Rightarrow> sources ?s' = sources s \<and> source_nodes ?s' = source_nodes s
       | Inr bufs \<Rightarrow>
           sources ?s' = [length (source_nodes s) ..< length (source_nodes s) + length bufs] \<and>
           (\<forall>i \<in> set (sources ?s').
              status (source_nodes ?s' ! i) = Unstarted \<and>
              node_loop (source_nodes ?s' ! i) = load_loop (pending s ! k)))"
      by (intro conjI)
  qed
  show ?thesis
    by (intro conjI) (rule toggle frame(1) frame(2) frame(3) settle)+
qed

theorem C6_loop_toggle_witness:
  "(0::nat) < length (pending toggling) \<and>
   promise_all (map demo_fetch demo_urls) = Inr demo_buffers \<and>
   load_loop (pending toggling ! 0) = True \<and>
   isPlaying toggled = isPlaying toggling \<and>
   take (length (source_nodes toggling)) (source_nodes toggled) = source_nodes toggling \<and>
   sources toggled =
     [length (source_nodes toggling) ..< length (source_nodes toggling) + length demo_buffers] \<and>
   node_loop (source_nodes toggled ! 3) = True"
proof -
  have c: "(0::nat) < length (pending toggling)" "load_loop (pending toggling ! 0) = True"
    by (simp_all add: toggling_eq demo_load_def)
  have m: "3 \<in> set (sources toggled)"
    by (simp add: toggled_eq)
  note settle = C6_loop_toggle [of demo_fetch demo_urls toggling, THEN conjunct2, THEN conjunct2,
    THEN conjunct2, THEN conjunct2, rule_format, OF c(1), folded toggled_def,
    unfolded demo_promise sum.case]
  from settle m c demo_promise show ?thesis
    by blast
qed

subsection \<open>Claims about seek, replay and stop\<close>

lemma stop_then_start_throws: "fst (stop_then_start t n) = Some InvalidStateError"
  by (cases "status n") (simp_all add: stop_then_start_def node_stop_def node_start_def)

lemma handleSliderChange_throws:
  "sources s \<noteq> [] \<Longrightarrow> fst (handleSliderChange t s) \<noteq> None"
proof -
  assume "sources s \<noteq> []"
  then obtain a rest where a: "sources s = a # rest" by (cases "sources s") auto
  obtain e n where f: "stop_then_start t (source_nodes s ! a) = (e, n)"
    by (cases "stop_then_start t (source_nodes s ! a)")
  with stop_then_start_throws [of t "source_nodes s ! a"] have "e = Some InvalidStateError"
    by simp
  with a f show ?thesis
    by (simp add: handleSliderChange_def)
qed

text \<open>
  Claim C1. A seek while playing is to stop every playback node, create and start one
  new node per track at the requested offset, and set the clock to that offset. The
  handler sets the clock and no more: at the playing three-track session, a seek to 1 s
  (which the slider lets through) sets \<open>currentTime\<close> to 1 but creates no playback
  node; the session keeps the same three references and the store the same three
  nodes. \<open>stop()\<close> succeeds on the first node, \<open>start(0, 1)\<close> on that same node throws,
  and the loop ends there: the first track is stopped, the other two still play from
  offset 0, and no node plays from offset 1.
\<close>

theorem C1_seek_failing_input:
  "enabled (SliderChange 1) playing \<and>
   currentTime seeked = 1 \<and>
   sources seeked = sources playing \<and>
   length (source_nodes seeked) = length (source_nodes playing) \<and>
   map status (source_nodes seeked) = [Stopped, Started 0, Started 0] \<and>
   console seeked = [InvalidStateError]"
  by (simp add: seeked_eq playing_eq loaded_eq initial_def demo_node_def)

text \<open>
  Claim C2. A Play after a Stop is to reuse the mix graph, create one new playback node
  per track and start them all at offset 0. The handler reuses the gain nodes, the
  compressor and the analyser, but creates no playback node: at the three-track
  session that played and was stopped, it calls \<open>start(0)\<close> on the first stopped node,
  which throws. Nothing restarts: \<open>isPlaying\<close> stays false, the three nodes stay
  stopped, no timer is scheduled.
\<close>

theorem C2_replay_failing_input:
  "enabled ClickStop playing \<and> enabled ClickPlay stopped \<and>
   \<not> isPlaying replayed \<and>
   sources replayed = sources playing \<and>
   length (source_nodes replayed) = length (source_nodes playing) \<and>
   map status (source_nodes replayed) = [Stopped, Stopped, Stopped] \<and>
   intervals replayed = [] \<and> frameRequests replayed = [] \<and>
   console replayed = [InvalidStateError] \<and>
   gainNodes replayed = gainNodes playing \<and>
   compressorRef replayed = compressorRef playing \<and>
   analyserRef replayed = analyserRef playing"
  by (simp add: replayed_eq stopped_eq playing_eq loaded_eq initial_def demo_node_def)

text \<open>
  Claim C5. Stop is to stop every playback node of a playing session, cancel the clock
  interval and the animation frame, and reset the clock to 0. The handler does so when
  the session still refers to the started nodes (\<open>handleStop_stops\<close>), but not at
  the three-track session whose loop flag was toggled during playback, once the load
  this started has settled: Stop (which the button lets through) calls \<open>stop()\<close> on
  the first of the nodes the reload created, which was never started, and that throws. The three started nodes keep playing,
  \<open>isPlaying\<close> stays true, the interval and the animation frame stay scheduled, and
  \<open>currentTime\<close> is not reset.
\<close>

theorem C5_stop_failing_input:
  "isPlaying toggled \<and> enabled ClickStop toggled \<and>
   isPlaying stop_after_toggle \<and>
   intervals stop_after_toggle = [1] \<and> frameRequests stop_after_toggle = [0] \<and>
   currentTime stop_after_toggle = 3 / 2 \<and>
   map status (source_nodes stop_after_toggle) =
     [Started 0, Started 0, Started 0, Unstarted, Unstarted, Unstarted] \<and>
   console stop_after_toggle = [InvalidStateError]"
  by (simp add: stop_after_toggle_eq toggled_eq ticked_eq playing_eq loaded_eq initial_def
      demo_node_def)

end
